theory Spec2Isabelle
  imports Main
begin

section \<open>Notification manager (class Notifications)\<close>

text \<open>
  The manager owns the array \<open>this.notifications\<close>, the sequential queue
  \<open>this.queue\<close> with its flag \<open>this.isProcessing\<close>, and the timers it registers with
  \<open>setTimeout\<close> and \<open>setInterval\<close>. The DOM container it renders into is not part of
  the model: \<open>render\<close>, the fade-in and the detaching of an element after the exit
  animation change markup and CSS classes only. What the JavaScript runtime supplies
  is made explicit: \<open>Date.now()\<close> is the field \<open>clock\<close> of the state, and the string
  \<open>Math.random().toString(36).substr(2, 9)\<close> is an argument \<open>rnd\<close> of every operation
  that reaches \<open>generateId\<close>.
\<close>

record options =
  opt_duration :: "int option"
  opt_persistent :: bool
  opt_action :: "string option"

record notification =
  nid :: string
  message :: string
  ntype :: string
  timestamp :: int
  duration :: int
  persistent :: bool
  action :: "string option"

record queued =
  q_message :: string
  q_type :: string
  q_options :: options
  q_resolve :: nat

datatype timer_action =
    RemoveTimer string
  | QueueTimer nat string
  | SweepTimer

record nstate =
  notifications :: "notification list"
  queue :: "queued list"
  isProcessing :: bool
  timers :: "(int \<times> timer_action) list"
  clock :: int
  resolved :: "(nat \<times> string) list"
  promises :: nat

text \<open>
  \<open>setTimeout(f, d)\<close>: the callback is due \<open>d\<close> milliseconds from now; the platform
  treats a negative delay as zero. Timers are kept in the order of registration.
\<close>

definition setTimeout :: "timer_action \<Rightarrow> int \<Rightarrow> nstate \<Rightarrow> nstate" where
  "setTimeout a d s = s\<lparr>timers := timers s @ [(clock s + max 0 d, a)]\<rparr>"

text \<open>The decimal digits of a number, as string concatenation prints it.\<close>

definition digit_char :: "nat \<Rightarrow> char" where
  "digit_char d = char_of (48 + d)"

fun digits :: "nat \<Rightarrow> string" where
  "digits n = (if n < 10 then [digit_char n] else digits (n div 10) @ [digit_char (n mod 10)])"

definition show_int :: "int \<Rightarrow> string" where
  "show_int i = (if i < 0 then CHR ''-'' # digits (nat (- i)) else digits (nat i))"

definition generateId :: "int \<Rightarrow> string \<Rightarrow> string" where
  "generateId now rnd = ''notification-'' @ show_int now @ ''-'' @ rnd"

text \<open>
  \<open>durations[type] || 3000\<close>. Property names that every object inherits
  (\<open>constructor\<close>, \<open>toString\<close>, ...) are not severities and are not modelled.
\<close>

definition getDefaultDuration :: "string \<Rightarrow> int" where
  "getDefaultDuration ty =
     (if ty = ''success'' then 3000
      else if ty = ''error'' then 5000
      else if ty = ''warning'' then 4000
      else if ty = ''info'' then 3000
      else 3000)"

text \<open>\<open>options.duration || d\<close>: an absent duration and the number 0 are both falsy.\<close>

definition duration_or :: "int option \<Rightarrow> int \<Rightarrow> int" where
  "duration_or od d = (case od of None \<Rightarrow> d | Some v \<Rightarrow> (if v = 0 then d else v))"

text \<open>\<open>options.action || null\<close>: an absent action and the empty string are both falsy.\<close>

definition action_or_null :: "string option \<Rightarrow> string option" where
  "action_or_null oa = (case oa of None \<Rightarrow> None | Some a \<Rightarrow> (if a = [] then None else Some a))"

definition make_notification :: "string \<Rightarrow> string \<Rightarrow> string \<Rightarrow> options \<Rightarrow> nstate \<Rightarrow> notification" where
  "make_notification rnd msg ty opts s =
     \<lparr> nid = generateId (clock s) rnd,
       message = msg,
       ntype = ty,
       timestamp = clock s,
       duration = duration_or (opt_duration opts) (getDefaultDuration ty),
       persistent = opt_persistent opts,
       action = action_or_null (opt_action opts) \<rparr>"

text \<open>\<open>show(message, type, options)\<close> returns the new identifier and the new state.\<close>

definition show_n :: "string \<Rightarrow> string \<Rightarrow> string \<Rightarrow> options \<Rightarrow> nstate \<Rightarrow> string \<times> nstate" where
  "show_n rnd msg ty opts s =
     (let n = make_notification rnd msg ty opts s;
          s1 = s\<lparr>notifications := notifications s @ [n]\<rparr>;
          s2 = (if \<not> persistent n then setTimeout (RemoveTimer (nid n)) (duration n) s1 else s1)
      in (nid n, s2))"

definition no_options :: options where
  "no_options = \<lparr> opt_duration = None, opt_persistent = False, opt_action = None \<rparr>"

definition success :: "string \<Rightarrow> string \<Rightarrow> options \<Rightarrow> nstate \<Rightarrow> string \<times> nstate" where
  "success rnd msg opts s = show_n rnd msg ''success'' opts s"

definition error :: "string \<Rightarrow> string \<Rightarrow> options \<Rightarrow> nstate \<Rightarrow> string \<times> nstate" where
  "error rnd msg opts s = show_n rnd msg ''error'' opts s"

definition warning :: "string \<Rightarrow> string \<Rightarrow> options \<Rightarrow> nstate \<Rightarrow> string \<times> nstate" where
  "warning rnd msg opts s = show_n rnd msg ''warning'' opts s"

definition info :: "string \<Rightarrow> string \<Rightarrow> options \<Rightarrow> nstate \<Rightarrow> string \<times> nstate" where
  "info rnd msg opts s = show_n rnd msg ''info'' opts s"

text \<open>
  \<open>remove(id)\<close>: nothing happens when \<open>find\<close> yields no notification; otherwise the
  array is replaced by the notifications whose identifier differs.
\<close>

definition remove_n :: "string \<Rightarrow> nstate \<Rightarrow> nstate" where
  "remove_n i s =
     (case find (\<lambda>n. nid n = i) (notifications s) of
        None \<Rightarrow> s
      | Some n \<Rightarrow> s\<lparr>notifications := filter (\<lambda>n. nid n \<noteq> i) (notifications s)\<rparr>)"

text \<open>
  \<open>clear()\<close> and \<open>cleanupExpired()\<close> run \<open>forEach\<close> over the array object that was
  current when they started; \<open>remove\<close> assigns a fresh array to the field and leaves
  that object as it was, so every element of it is visited.
\<close>

definition clear :: "nstate \<Rightarrow> nstate" where
  "clear s = fold (\<lambda>n. remove_n (nid n)) (notifications s) s"

definition cleanupExpired :: "nstate \<Rightarrow> nstate" where
  "cleanupExpired s =
     (let now = clock s in
      fold (\<lambda>n st. if \<not> persistent n \<and> now - timestamp n \<ge> duration n
                    then remove_n (nid n) st else st)
           (notifications s) s)"


text \<open>
  The constructor: an empty collection, an empty queue, and the expiry sweep that
  \<open>bindEvents\<close> registers with \<open>setInterval(..., 1000)\<close>.
\<close>

definition init_n :: "int \<Rightarrow> nstate" where
  "init_n c =
     \<lparr> notifications = [], queue = [], isProcessing = False,
       timers = [(c + 1000, SweepTimer)], clock = c, resolved = [], promises = 0 \<rparr>"

text \<open>
  A call of the public interface. In a sequence of calls each one comes paired
  with the value of \<open>Date.now()\<close> at which it is made.
\<close>

datatype call =
    Show string string string options
  | Success string string options
  | Error string string options
  | Warning string string options
  | Info string string options
  | Remove string
  | Clear
  | CleanupExpired

fun do_call :: "call \<Rightarrow> nstate \<Rightarrow> nstate" where
  "do_call (Show rnd msg ty opts) s = snd (show_n rnd msg ty opts s)"
| "do_call (Success rnd msg opts) s = snd (success rnd msg opts s)"
| "do_call (Error rnd msg opts) s = snd (error rnd msg opts s)"
| "do_call (Warning rnd msg opts) s = snd (warning rnd msg opts s)"
| "do_call (Info rnd msg opts) s = snd (info rnd msg opts s)"
| "do_call (Remove i) s = remove_n i s"
| "do_call Clear s = clear s"
| "do_call CleanupExpired s = cleanupExpired s"

definition apply_call :: "int \<times> call \<Rightarrow> nstate \<Rightarrow> nstate" where
  "apply_call tc s = do_call (snd tc) (s\<lparr>clock := fst tc\<rparr>)"

definition apply_calls :: "(int \<times> call) list \<Rightarrow> nstate \<Rightarrow> nstate" where
  "apply_calls tcs s = fold apply_call tcs s"

text \<open>
  What the runtime hands to \<open>generateId\<close> in a sequence of calls: the clock and the
  random suffix of every call that shows a notification, and the identifiers made
  from them.
\<close>

fun call_rnd :: "call \<Rightarrow> string option" where
  "call_rnd (Show rnd msg ty opts) = Some rnd"
| "call_rnd (Success rnd msg opts) = Some rnd"
| "call_rnd (Error rnd msg opts) = Some rnd"
| "call_rnd (Warning rnd msg opts) = Some rnd"
| "call_rnd (Info rnd msg opts) = Some rnd"
| "call_rnd (Remove i) = None"
| "call_rnd Clear = None"
| "call_rnd CleanupExpired = None"

definition draws :: "(int \<times> call) list \<Rightarrow> (int \<times> string) list" where
  "draws tcs =
     concat (map (\<lambda>tc. case call_rnd (snd tc) of None \<Rightarrow> [] | Some rnd \<Rightarrow> [(fst tc, rnd)]) tcs)"

definition generated :: "(int \<times> call) list \<Rightarrow> string list" where
  "generated tcs = map (\<lambda>d. generateId (fst d) (snd d)) (draws tcs)"

definition live_ids :: "nstate \<Rightarrow> string list" where
  "live_ids s = map nid (notifications s)"

subsection \<open>The sequential queue\<close>

text \<open>
  \<open>processQueue()\<close> of the notification manager: with an empty queue the flag is
  cleared; otherwise the head is shifted off, shown, and a timer is set that
  resolves the promise of the entry and processes the queue again.
\<close>

definition processQueue_n :: "string \<Rightarrow> nstate \<Rightarrow> nstate" where
  "processQueue_n rnd s =
     (case queue s of
        [] \<Rightarrow> s\<lparr>isProcessing := False\<rparr>
      | q # rest \<Rightarrow>
          (let s1 = s\<lparr>isProcessing := True, queue := rest\<rparr>;
               (i, s2) = show_n rnd (q_message q) (q_type q) (q_options q) s1;
               timeout = duration_or (opt_duration (q_options q)) (getDefaultDuration (q_type q))
           in setTimeout (QueueTimer (q_resolve q) i) (timeout + 300) s2))"

text \<open>
  \<open>showQueued(message, type, options)\<close> returns a new promise, named by a number;
  \<open>resolved\<close> records the identifier each promise is resolved with.
\<close>

definition showQueued :: "string \<Rightarrow> string \<Rightarrow> string \<Rightarrow> options \<Rightarrow> nstate \<Rightarrow> nat \<times> nstate" where
  "showQueued rnd msg ty opts s =
     (let h = promises s;
          s1 = s\<lparr>queue := queue s @ [\<lparr> q_message = msg, q_type = ty, q_options = opts, q_resolve = h \<rparr>],
                 promises := h + 1\<rparr>
      in (h, if \<not> isProcessing s1 then processQueue_n rnd s1 else s1))"

subsection \<open>The event loop\<close>

text \<open>
  The callback of a timer that was due at \<open>d\<close>. The interval timer of the sweep
  is due again 1000 milliseconds later.
\<close>

definition run_timer :: "string \<Rightarrow> int \<Rightarrow> timer_action \<Rightarrow> nstate \<Rightarrow> nstate" where
  "run_timer rnd d a s =
     (case a of
        RemoveTimer i \<Rightarrow> remove_n i s
      | QueueTimer h i \<Rightarrow> processQueue_n rnd (s\<lparr>resolved := resolved s @ [(h, i)]\<rparr>)
      | SweepTimer \<Rightarrow> cleanupExpired (s\<lparr>timers := timers s @ [(d + 1000, SweepTimer)]\<rparr>))"

text \<open>The first timer, in the order of registration, that is due at \<open>now\<close>.\<close>

fun take_due :: "int \<Rightarrow> (int \<times> timer_action) list
    \<Rightarrow> ((int \<times> timer_action) \<times> (int \<times> timer_action) list) option" where
  "take_due now [] = None"
| "take_due now (t # ts) =
     (if fst t \<le> now then Some (t, ts)
      else (case take_due now ts of None \<Rightarrow> None | Some (x, rest) \<Rightarrow> Some (x, t # rest)))"

definition fire :: "string \<Rightarrow> nstate \<Rightarrow> nstate option" where
  "fire rnd s =
     (case take_due (clock s) (timers s) of
        None \<Rightarrow> None
      | Some (t, rest) \<Rightarrow> Some (run_timer rnd (fst t) (snd t) (s\<lparr>timers := rest\<rparr>)))"

text \<open>
  What happens to the manager, one event after the other: a call of the public
  interface, a call of \<open>showQueued\<close>, the runtime running the callback of a due
  timer, or time passing. Timers fire on time: the clock does not move past a timer
  that is still pending. An event that cannot happen gives \<open>None\<close>.
\<close>

datatype event =
    Do call
  | ShowQueued string string string options
  | Fire string
  | Advance int

fun step :: "event \<Rightarrow> nstate \<Rightarrow> nstate option" where
  "step (Do c) s = Some (do_call c s)"
| "step (ShowQueued rnd msg ty opts) s = Some (snd (showQueued rnd msg ty opts s))"
| "step (Fire rnd) s = fire rnd s"
| "step (Advance t) s =
     (if clock s \<le> t \<and> list_all (\<lambda>tm. t \<le> fst tm) (timers s) then Some (s\<lparr>clock := t\<rparr>) else None)"

fun run :: "event list \<Rightarrow> nstate \<Rightarrow> nstate option" where
  "run [] s = Some s"
| "run (e # es) s = (case step e s of None \<Rightarrow> None | Some s1 \<Rightarrow> run es s1)"

text \<open>The random suffixes that a sequence of events consumes.\<close>

fun event_rnd :: "event \<Rightarrow> string list" where
  "event_rnd (Do c) = (case call_rnd c of None \<Rightarrow> [] | Some rnd \<Rightarrow> [rnd])"
| "event_rnd (ShowQueued rnd msg ty opts) = [rnd]"
| "event_rnd (Fire rnd) = [rnd]"
| "event_rnd (Advance t) = []"

definition rnds :: "event list \<Rightarrow> string list" where
  "rnds es = concat (map event_rnd es)"

definition sticky :: options where
  "sticky = \<lparr> opt_duration = None, opt_persistent = True, opt_action = None \<rparr>"

text \<open>
  Invariants of the event loop. No pending timer is overdue; every live
  notification that is not persistent has its removal timer pending; the live
  identifiers are pairwise distinct, every identifier in the collection or in a
  removal timer was made from a random suffix in \<open>R\<close>, and no removal timer names a
  persistent notification.
\<close>

definition timely :: "nstate \<Rightarrow> bool" where
  "timely s = (\<forall>tm \<in> set (timers s). clock s \<le> fst tm)"

definition armed :: "nstate \<Rightarrow> bool" where
  "armed s = (\<forall>n \<in> set (notifications s). \<not> persistent n \<longrightarrow>
      (timestamp n + max 0 (duration n), RemoveTimer (nid n)) \<in> set (timers s))"

definition owned :: "string set \<Rightarrow> nstate \<Rightarrow> bool" where
  "owned R s =
     (distinct (live_ids s)
      \<and> (\<forall>n \<in> set (notifications s). \<exists>t r. r \<in> R \<and> nid n = generateId t r)
      \<and> (\<forall>tm \<in> set (timers s). \<forall>i. snd tm = RemoveTimer i \<longrightarrow>
            (\<exists>t r. r \<in> R \<and> i = generateId t r)
            \<and> (\<forall>n \<in> set (notifications s). nid n = i \<longrightarrow> \<not> persistent n)))"

text \<open>
  A run to exercise the event loop: \<open>success("Added to cart")\<close>, at once
  \<open>error("Failed", {persistent: true})\<close>, then four seconds in which the sweep
  fires three times and the timer of the first notification once; and two more
  sweeps after that.
\<close>

definition scenario :: "event list" where
  "scenario =
     [Do (Success ''k3j9x0a1b'' ''Added to cart'' no_options), Do (Error ''z81mm2q0c'' ''Failed'' sticky),
      Advance 1000, Fire ''a'', Advance 2000, Fire ''b'', Advance 3000, Fire ''c'', Fire ''d'',
      Advance 4000]"

definition later :: "event list" where
  "later = [Fire ''e'', Advance 5000, Fire ''f'']"

definition added_to_cart :: notification where
  "added_to_cart =
     \<lparr> nid = generateId 0 ''k3j9x0a1b'', message = ''Added to cart'', ntype = ''success'',
       timestamp = 0, duration = 3000, persistent = False, action = None \<rparr>"

definition failed_note :: notification where
  "failed_note =
     \<lparr> nid = generateId 0 ''z81mm2q0c'', message = ''Failed'', ntype = ''error'', timestamp = 0,
       duration = 5000, persistent = True, action = None \<rparr>"

definition after_scenario :: nstate where
  "after_scenario =
     \<lparr> notifications = [failed_note], queue = [], isProcessing = False,
       timers = [(4000, SweepTimer)], clock = 4000, resolved = [], promises = 0 \<rparr>"

section \<open>Exceptions\<close>

text \<open>
  A JavaScript computation either completes with a value or throws: \<open>Inr v\<close> is a
  normal completion, \<open>Inl e\<close> an exception on its way to the caller.
  \<open>try { b } catch (e) { h }\<close> is \<open>try_catch b h\<close>, and \<open>then_do\<close> runs what follows a
  statement that may throw.
\<close>

definition try_catch :: "'e + 'a \<Rightarrow> ('e \<Rightarrow> 'e + 'a) \<Rightarrow> 'e + 'a" where
  "try_catch b h = (case b of Inl e \<Rightarrow> h e | Inr v \<Rightarrow> Inr v)"

definition then_do :: "'e + 'a \<Rightarrow> ('a \<Rightarrow> 'e + 'b) \<Rightarrow> 'e + 'b" where
  "then_do m f = (case m of Inl e \<Rightarrow> Inl e | Inr v \<Rightarrow> f v)"

section \<open>Storage accessors (Utils.storage, Utils.parseJSON, Utils.stringifyJSON)\<close>

text \<open>
  The browser's \<open>localStorage\<close> and \<open>JSON\<close> objects are parameters: any behaviour
  of \<open>getItem\<close>, \<open>setItem\<close>, \<open>removeItem\<close>, \<open>JSON.parse\<close> and \<open>JSON.stringify\<close>,
  throwing included, is admitted. \<open>'st\<close> is the content of the store, \<open>'v\<close> the
  type of values, \<open>'e\<close> the type of exceptions. \<open>console.warn\<close> has no effect on the
  program and is left out.
\<close>

record ('e, 'v, 'st) platform =
  getItem :: "'st \<Rightarrow> string \<Rightarrow> 'e + string option"
  setItem :: "'st \<Rightarrow> string \<Rightarrow> string \<Rightarrow> 'e + 'st"
  removeItem :: "'st \<Rightarrow> string \<Rightarrow> 'e + 'st"
  JSON_parse :: "string \<Rightarrow> 'e + 'v"
  JSON_stringify :: "'v \<Rightarrow> 'e + string"

definition parseJSON :: "('e, 'v, 'st) platform \<Rightarrow> string \<Rightarrow> 'v \<Rightarrow> 'e + 'v" where
  "parseJSON pf jsonString fallback =
     try_catch (JSON_parse pf jsonString) (\<lambda>e. Inr fallback)"

definition stringifyJSON :: "('e, 'v, 'st) platform \<Rightarrow> 'v \<Rightarrow> string \<Rightarrow> 'e + string" where
  "stringifyJSON pf obj fallback =
     try_catch (JSON_stringify pf obj) (\<lambda>e. Inr fallback)"

text \<open>
  \<open>storage.get(key, fallback)\<close>: \<open>item ? parseJSON(item, fallback) : fallback\<close>, where
  \<open>null\<close> and the empty string are falsy.
\<close>

definition storage_get :: "('e, 'v, 'st) platform \<Rightarrow> 'st \<Rightarrow> string \<Rightarrow> 'v \<Rightarrow> 'e + 'v" where
  "storage_get pf st key fallback =
     try_catch
       (then_do (getItem pf st key) (\<lambda>item.
          case item of
            None \<Rightarrow> Inr fallback
          | Some str \<Rightarrow> (if str = [] then Inr fallback else parseJSON pf str fallback)))
       (\<lambda>e. Inr fallback)"

text \<open>
  \<open>storage.set(key, value)\<close> and \<open>storage.remove(key)\<close> return the boolean together
  with the store as they leave it.
\<close>

definition storage_set :: "('e, 'v, 'st) platform \<Rightarrow> 'st \<Rightarrow> string \<Rightarrow> 'v \<Rightarrow> 'e + bool \<times> 'st" where
  "storage_set pf st key val =
     try_catch
       (then_do (stringifyJSON pf val ''{}'') (\<lambda>str.
        then_do (setItem pf st key str) (\<lambda>st'. Inr (True, st'))))
       (\<lambda>e. Inr (False, st))"

definition storage_remove :: "('e, 'v, 'st) platform \<Rightarrow> 'st \<Rightarrow> string \<Rightarrow> 'e + bool \<times> 'st" where
  "storage_remove pf st key =
     try_catch
       (then_do (removeItem pf st key) (\<lambda>st'. Inr (True, st')))
       (\<lambda>e. Inr (False, st))"

text \<open>
  A store to run the accessors on: a list of pairs, a switch for a store that the
  browser has disabled, and a bound on the length of a stored string. Its values
  are strings, written to the store between double quotes.
\<close>

record demo_store =
  items :: "(string \<times> string) list"
  enabled :: bool
  quota :: nat

definition demo_platform :: "(string, string, demo_store) platform" where
  "demo_platform =
     \<lparr> getItem = (\<lambda>st k. if enabled st then Inr (map_of (items st) k) else Inl ''SecurityError''),
       setItem = (\<lambda>st k v. if \<not> enabled st then Inl ''SecurityError''
                            else if quota st < length v then Inl ''QuotaExceededError''
                            else Inr (st\<lparr>items := (k, v) # items st\<rparr>)),
       removeItem = (\<lambda>st k. if enabled st then Inr (st\<lparr>items := filter (\<lambda>kv. fst kv \<noteq> k) (items st)\<rparr>)
                             else Inl ''SecurityError''),
       JSON_parse = (\<lambda>str. if 2 \<le> length str \<and> hd str = CHR 0x22 \<and> last str = CHR 0x22
                            then Inr (butlast (tl str)) else Inl ''SyntaxError''),
       JSON_stringify = (\<lambda>v. Inr (CHR 0x22 # v @ [CHR 0x22])) \<rparr>"

section \<open>Errors of the API client and retrying (API.withRetry)\<close>

text \<open>
  A parsed JSON body. It is either \<open>null\<close>, on which reading a property throws a
  \<open>TypeError\<close>, or a value whose properties can be read: the three properties that
  the client reads, each of which may be absent, and the rest of the value.
  \<open>empty_json\<close> is the object \<open>{}\<close>.
\<close>

record json_fields =
  j_message :: "string option"
  j_error :: "string option"
  j_retry_after :: "int option"
  j_content :: string

datatype json = JNull | JObject json_fields

definition empty_json :: json where
  "empty_json = JObject \<lparr> j_message = None, j_error = None, j_retry_after = None, j_content = [] \<rparr>"

text \<open>
  What the API client throws and catches. \<open>HttpError\<close> is the \<open>Error\<close> that
  \<open>handleError\<close> builds, with its message, \<open>status\<close>, \<open>statusText\<close> and \<open>data\<close>;
  \<open>Thrown\<close> is any other value, with the \<open>status\<close> property it may or may not
  carry.
\<close>

datatype js_error =
    HttpError string int string json
  | TypeError string
  | PlainError string
  | Thrown string "int option"

fun status :: "js_error \<Rightarrow> int option" where
  "status (HttpError m st txt d) = Some st"
| "status (TypeError m) = None"
| "status (PlainError m) = None"
| "status (Thrown m st) = st"

text \<open>\<open>error.status >= 400 && error.status < 500\<close>; \<open>undefined\<close> compares false.\<close>

definition client_error :: "js_error \<Rightarrow> bool" where
  "client_error e = (case status e of None \<Rightarrow> False | Some st \<Rightarrow> 400 \<le> st \<and> st < 500)"

text \<open>
  The operation \<open>fn\<close> is given by the outcome of each of its invocations, counted
  from 0. The result records what \<open>withRetry\<close> returns or throws (\<open>None\<close> stands for
  \<open>undefined\<close>, the initial \<open>lastError\<close>), how often \<open>fn\<close> was invoked and the delays
  that were waited, in order.
\<close>

record 'a retry_result =
  outcome :: "js_error option + 'a"
  calls :: nat
  waits :: "int list"

function retry_loop ::
  "(nat \<Rightarrow> js_error + 'a) \<Rightarrow> int \<Rightarrow> int \<Rightarrow> int \<Rightarrow> js_error option \<Rightarrow> int list \<Rightarrow> 'a retry_result" where
  "retry_loop fn maxRetries delay i lastError ws =
     (if i < maxRetries then
        (case fn (nat i) of
           Inr v \<Rightarrow> \<lparr> outcome = Inr v, calls = nat i + 1, waits = ws \<rparr>
         | Inl err \<Rightarrow>
             if client_error err
             then \<lparr> outcome = Inl (Some err), calls = nat i + 1, waits = ws \<rparr>
             else retry_loop fn maxRetries delay (i + 1) (Some err)
                    (if i < maxRetries - 1 then ws @ [delay * 2 ^ nat i] else ws))
      else \<lparr> outcome = Inl lastError, calls = nat i, waits = ws \<rparr>)"
  by pat_completeness auto
termination
  by (relation "measure (\<lambda>(fn, maxRetries, delay, i, lastError, ws). nat (maxRetries - i))") auto

definition withRetry :: "(nat \<Rightarrow> js_error + 'a) \<Rightarrow> int \<Rightarrow> int \<Rightarrow> 'a retry_result" where
  "withRetry fn maxRetries delay = retry_loop fn maxRetries delay 0 None []"

section \<open>API client (class API): requests and the offline buffer\<close>

text \<open>
  A request configuration, an HTTP response as the client reads it, and an entry of
  \<open>this.requestQueue\<close>. The functions \<open>resolve\<close> and \<open>reject\<close> that an entry holds
  belong to one promise, named by \<open>handle\<close>. \<open>r_json_type\<close> says that the response
  has a \<open>content-type\<close> header that includes \<open>application/json\<close>; \<open>r_json\<close> and
  \<open>r_text\<close> are what \<open>response.json()\<close> and \<open>response.text()\<close> complete with.
\<close>

record req_config =
  http_method :: "string option"
  body :: "string option"
  headers :: "(string \<times> string) list option"
  queueOffline :: "bool option"

record response =
  r_status :: int
  r_statusText :: string
  r_json_type :: bool
  r_json :: "js_error + json"
  r_text :: "js_error + string"

datatype payload = JsonBody json | TextBody string

record entry =
  endpoint :: string
  config :: req_config
  handle :: nat
  req_timestamp :: int

datatype settlement = Resolved payload | Rejected js_error

text \<open>
  The client. \<open>Notifications_defined\<close> is the test
  \<open>typeof Notifications !== 'undefined'\<close>, true on a page that has loaded the
  notifications script. \<open>api_clock\<close> is \<open>Date.now()\<close>. \<open>settled\<close> records how each
  promise was settled, \<open>fetched\<close> the calls of \<open>fetch\<close> in order, \<open>redirect_due\<close>
  the timer of the redirect to the login page. The copy of the token under the
  storage key \<open>authToken\<close> is not part of the model.
\<close>

record api_state =
  baseURL :: string
  authToken :: "string option"
  requestQueue :: "entry list"
  isOnline :: bool
  Notifications_defined :: bool
  api_clock :: int
  settled :: "(nat \<times> settlement) list"
  promise_count :: nat
  fetched :: "(string \<times> req_config) list"
  redirect_due :: "int option"

text \<open>The constructor; \<open>onLine\<close> is \<open>navigator.onLine\<close>, \<open>tok\<close> the stored token.\<close>

definition init_api :: "bool \<Rightarrow> bool \<Rightarrow> string option \<Rightarrow> int \<Rightarrow> api_state" where
  "init_api onLine loaded tok c =
     \<lparr> baseURL = ''/api'', authToken = tok, requestQueue = [], isOnline = onLine,
       Notifications_defined = loaded, api_clock = c, settled = [], promise_count = 0,
       fetched = [], redirect_due = None \<rparr>"

definition defaultHeaders :: "(string \<times> string) list" where
  "defaultHeaders = [(''Content-Type'', ''application/json''), (''X-Requested-With'', ''XMLHttpRequest'')]"

definition set_header :: "string \<Rightarrow> string \<Rightarrow> (string \<times> string) list \<Rightarrow> (string \<times> string) list" where
  "set_header k v hs =
     (if k \<in> fst ` set hs then map (\<lambda>kv. if fst kv = k then (k, v) else kv) hs else hs @ [(k, v)])"

definition bearer :: "api_state \<Rightarrow> (string \<times> string) list \<Rightarrow> (string \<times> string) list" where
  "bearer s hs =
     (case authToken s of
        None \<Rightarrow> hs
      | Some t \<Rightarrow> (if t = [] then hs else set_header ''Authorization'' (''Bearer '' @ t) hs))"

definition getAuthHeaders :: "api_state \<Rightarrow> (string \<times> string) list" where
  "getAuthHeaders s = bearer s defaultHeaders"

text \<open>
  Settling a promise: the first call of \<open>resolve\<close> or \<open>reject\<close> decides, later calls
  do nothing.
\<close>

definition promise_state :: "api_state \<Rightarrow> nat \<Rightarrow> settlement option" where
  "promise_state s h = map_of (settled s) h"

definition settle :: "nat \<Rightarrow> settlement \<Rightarrow> api_state \<Rightarrow> api_state" where
  "settle h out s =
     (case promise_state s h of
        None \<Rightarrow> s\<lparr>settled := settled s @ [(h, out)]\<rparr>
      | Some x \<Rightarrow> s)"

text \<open>
  \<open>if (typeof Notifications !== 'undefined') { this.notifications.info(...) }\<close>, and
  the same with \<open>warning\<close> and \<open>error\<close>. The class API never assigns a property
  \<open>notifications\<close>, so \<open>this.notifications\<close> is \<open>undefined\<close> and the call throws a
  \<open>TypeError\<close> whenever the test succeeds.
\<close>

definition notify :: "api_state \<Rightarrow> js_error + unit" where
  "notify s =
     (if Notifications_defined s
      then Inl (TypeError ''Cannot read properties of undefined'')
      else Inr ())"

definition setAuthToken :: "string option \<Rightarrow> api_state \<Rightarrow> api_state" where
  "setAuthToken tok s = s\<lparr>authToken := tok\<rparr>"

definition handleUnauthorized :: "api_state \<Rightarrow> (js_error + unit) \<times> api_state" where
  "handleUnauthorized s =
     (let s1 = setAuthToken None s in
      case notify s1 of
        Inl e \<Rightarrow> (Inl e, s1)
      | Inr u \<Rightarrow> (Inr (), s1\<lparr>redirect_due := Some (api_clock s1 + 2000)\<rparr>))"

definition handleForbidden :: "api_state \<Rightarrow> (js_error + unit) \<times> api_state" where
  "handleForbidden s = (notify s, s)"

text \<open>
  \<open>handleRateLimit(data)\<close> reads \<open>data.retry_after\<close> before anything else, which
  throws when the data is \<open>null\<close>; the value read only goes into the text of the
  notification.
\<close>

definition handleRateLimit :: "json \<Rightarrow> api_state \<Rightarrow> (js_error + unit) \<times> api_state" where
  "handleRateLimit d s =
     (case d of
        JNull \<Rightarrow> (Inl (TypeError ''Cannot read properties of null''), s)
      | JObject f \<Rightarrow> (notify s, s))"

definition handleServerError :: "api_state \<Rightarrow> (js_error + unit) \<times> api_state" where
  "handleServerError s = (notify s, s)"

text \<open>\<open>a || b\<close> on strings that may be absent.\<close>

definition or_else :: "string option \<Rightarrow> string \<Rightarrow> string" where
  "or_else a b = (case a of None \<Rightarrow> b | Some str \<Rightarrow> (if str = [] then b else str))"

text \<open>
  The first part of \<open>handleError\<close>: the message and the data of the error, read
  from the body of the response, with the status text as the fallback when reading
  throws. A JSON body is assigned to \<open>errorData\<close> before its \<open>message\<close> is read:
  for the body \<open>null\<close> that read throws and is caught, and \<open>errorData\<close> stays
  \<open>null\<close>.
\<close>

definition error_body :: "response \<Rightarrow> string \<times> json" where
  "error_body r =
     (if r_json_type r then
        (case r_json r of
           Inr JNull \<Rightarrow> (or_else (Some (r_statusText r)) ''An error occurred'', JNull)
         | Inr (JObject f) \<Rightarrow>
             (or_else (j_message f) (or_else (j_error f) ''An error occurred''), JObject f)
         | Inl e \<Rightarrow> (or_else (Some (r_statusText r)) ''An error occurred'', empty_json))
      else
        (case r_text r of
           Inr t \<Rightarrow> (t, empty_json)
         | Inl e \<Rightarrow> (or_else (Some (r_statusText r)) ''An error occurred'', empty_json)))"

text \<open>
  \<open>handleError(response)\<close>: \<open>Inr\<close> is the error it returns, \<open>Inl\<close> an exception
  that one of the status handlers throws before it can return.
\<close>

definition handleError :: "response \<Rightarrow> api_state \<Rightarrow> (js_error + js_error) \<times> api_state" where
  "handleError r s =
     (let (msg, d) = error_body r;
          err = HttpError msg (r_status r) (r_statusText r) d;
          (res, s1) =
            (if r_status r = 401 then handleUnauthorized s
             else if r_status r = 403 then handleForbidden s
             else if r_status r = 429 then handleRateLimit d s
             else if r_status r = 500 then handleServerError s
             else (Inr (), s))
      in (case res of Inl e \<Rightarrow> Inl e | Inr u \<Rightarrow> Inr err, s1))"

text \<open>
  \<open>queueRequest(endpoint, config)\<close> returns a new promise. Its executor appends the
  entry and then notifies; an exception in the executor rejects the promise.
\<close>

definition queueRequest :: "string \<Rightarrow> req_config \<Rightarrow> api_state \<Rightarrow> nat \<times> api_state" where
  "queueRequest ep cfg s =
     (let h = promise_count s;
          s1 = s\<lparr>requestQueue := requestQueue s
                    @ [\<lparr> endpoint = ep, config = cfg, handle = h, req_timestamp = api_clock s \<rparr>],
                 promise_count := h + 1\<rparr>
      in case notify s1 of
           Inl e \<Rightarrow> (h, settle h (Rejected e) s1)
         | Inr u \<Rightarrow> (h, s1))"

text \<open>
  How the promise of an \<open>async\<close> function ends: fulfilled with a value, rejected
  with what was thrown, or following the promise that was returned.
\<close>

datatype completion = Returns payload | Throws js_error | Follows nat

definition completion_state :: "completion \<Rightarrow> api_state \<Rightarrow> settlement option" where
  "completion_state c s =
     (case c of
        Returns v \<Rightarrow> Some (Resolved v)
      | Throws e \<Rightarrow> Some (Rejected e)
      | Follows h \<Rightarrow> promise_state s h)"

definition ok :: "response \<Rightarrow> bool" where
  "ok r = (200 \<le> r_status r \<and> r_status r \<le> 299)"

text \<open>
  \<open>request(endpoint, options)\<close> up to the call of \<open>fetch\<close>: the URL and the
  configuration.
\<close>

definition request_begin :: "string \<Rightarrow> req_config \<Rightarrow> api_state \<Rightarrow> req_config \<times> api_state" where
  "request_begin ep opts s =
     (let url = (if take 4 ep = ''http'' then ep else baseURL s @ ep);
          hs = (case headers opts of None \<Rightarrow> getAuthHeaders s | Some h \<Rightarrow> h);
          cfg = opts\<lparr>headers := Some (bearer s hs)\<rparr>
      in (cfg, s\<lparr>fetched := fetched s @ [(url, cfg)]\<rparr>))"

text \<open>
  The \<open>try\<close> block of \<open>request\<close> once the body of the response has been read:
  for a response that is not \<open>ok\<close>, \<open>handleError\<close> finishes and what it returns
  is thrown; otherwise the body is the result. \<open>Inl\<close> is what leaves the block as
  an exception.
\<close>

definition request_try :: "response \<Rightarrow> api_state \<Rightarrow> (js_error + payload) \<times> api_state" where
  "request_try r s =
     (if \<not> ok r then
        (case handleError r s of
           (Inl e, s1) \<Rightarrow> (Inl e, s1)
         | (Inr err, s1) \<Rightarrow> (Inl err, s1))
      else if r_json_type r then
        (case r_json r of Inl e \<Rightarrow> (Inl e, s) | Inr d \<Rightarrow> (Inr (JsonBody d), s))
      else
        (case r_text r of Inl e \<Rightarrow> (Inl e, s) | Inr t \<Rightarrow> (Inr (TextBody t), s)))"

text \<open>
  The \<open>catch\<close> block of \<open>request\<close>. Everything thrown in the \<open>try\<close> block, the
  error for a response that is not \<open>ok\<close> included, arrives here, and the
  connectivity flag is tested here.
\<close>

definition request_catch :: "string \<Rightarrow> req_config \<Rightarrow> req_config \<Rightarrow> js_error \<Rightarrow> api_state \<Rightarrow> completion \<times> api_state" where
  "request_catch ep opts cfg err s =
     (if \<not> isOnline s \<and> queueOffline opts \<noteq> Some False
      then (case queueRequest ep cfg s of (h, s1) \<Rightarrow> (Follows h, s1))
      else (Throws err, s))"

text \<open>
  \<open>request\<close> from the moment \<open>fetch\<close> has settled, in the state \<open>s\<close> of the client
  at that moment, with \<open>Inl\<close> for a rejected \<open>fetch\<close>. A rejection goes to the
  \<open>catch\<close> block at once. With a response, the function first awaits the body
  (\<open>response.json()\<close> or \<open>response.text()\<close>, inside \<open>handleError\<close> when the
  response is not \<open>ok\<close>); the client reads and writes nothing of its state
  before that, and \<open>meanwhile\<close> is what other handlers do to the client while the
  body is read. From there to the \<open>catch\<close> block only promise continuations run,
  no event listener.
\<close>

definition request_end ::
  "string \<Rightarrow> req_config \<Rightarrow> req_config \<Rightarrow> js_error + response \<Rightarrow> (api_state \<Rightarrow> api_state)
     \<Rightarrow> api_state \<Rightarrow> completion \<times> api_state" where
  "request_end ep opts cfg fetch_result meanwhile s =
     (case fetch_result of
        Inl e \<Rightarrow> request_catch ep opts cfg e s
      | Inr r \<Rightarrow>
          (case request_try r (meanwhile s) of
             (Inr v, s1) \<Rightarrow> (Returns v, s1)
           | (Inl err, s1) \<Rightarrow> request_catch ep opts cfg err s1))"

text \<open>A request during which nothing else happens to the client.\<close>

definition request :: "string \<Rightarrow> req_config \<Rightarrow> js_error + response \<Rightarrow> api_state \<Rightarrow> completion \<times> api_state" where
  "request ep opts fetch_result s =
     (case request_begin ep opts s of
        (cfg, s1) \<Rightarrow> request_end ep opts cfg fetch_result (\<lambda>s. s) s1)"

text \<open>
  \<open>processQueue()\<close>. While the pass awaits the replay numbered \<open>k\<close>, other handlers
  run (connectivity events, other requests, the clock moves on): \<open>interleaved\<close> is
  what they do to the client while \<open>fetch\<close> is under way, \<open>fetch_result\<close> what the
  replay's \<open>fetch\<close> settles with, \<open>while_reading\<close> what they do while the body of
  the response is read. A pass that awaits a promise nobody has settled yet is \<open>Parked\<close> with the
  entry at hand and the entries still to come; it goes on when that promise is
  settled.
\<close>

record item_env =
  interleaved :: "api_state \<Rightarrow> api_state"
  fetch_result :: "js_error + response"
  while_reading :: "api_state \<Rightarrow> api_state"

datatype pass = Finished api_state | Parked nat entry "entry list" api_state

fun drain :: "(nat \<Rightarrow> item_env) \<Rightarrow> nat \<Rightarrow> entry list \<Rightarrow> api_state \<Rightarrow> pass" where
  "drain env k [] s = Finished s"
| "drain env k (item # rest) s =
     (if api_clock s - req_timestamp item < 5 * 60 * 1000 then
        (case request_begin (endpoint item) (config item) s of (cfg, s1) \<Rightarrow>
          (case request_end (endpoint item) (config item) cfg (fetch_result (env k))
                  (while_reading (env k)) (interleaved (env k) s1) of
             (Returns v, s2) \<Rightarrow> drain env (k + 1) rest (settle (handle item) (Resolved v) s2)
           | (Throws e, s2) \<Rightarrow> drain env (k + 1) rest (settle (handle item) (Rejected e) s2)
           | (Follows h, s2) \<Rightarrow>
               (case promise_state s2 h of
                  Some (Resolved v) \<Rightarrow> drain env (k + 1) rest (settle (handle item) (Resolved v) s2)
                | Some (Rejected e) \<Rightarrow> drain env (k + 1) rest (settle (handle item) (Rejected e) s2)
                | None \<Rightarrow> Parked h item rest s2)))
      else drain env (k + 1) rest
             (settle (handle item) (Rejected (PlainError ''Request expired'')) s))"

definition processQueue :: "(nat \<Rightarrow> item_env) \<Rightarrow> api_state \<Rightarrow> pass" where
  "processQueue env s =
     (if \<not> isOnline s \<or> requestQueue s = [] then Finished s
      else drain env 0 (requestQueue s) (s\<lparr>requestQueue := []\<rparr>))"

text \<open>
  The listeners of the \<open>online\<close> and \<open>offline\<close> events. The notification that
  follows in each listener changes nothing in the client: where it throws, the
  exception leaves the listener.
\<close>

definition online_event :: "(nat \<Rightarrow> item_env) \<Rightarrow> api_state \<Rightarrow> pass" where
  "online_event env s = processQueue env (s\<lparr>isOnline := True\<rparr>)"

definition offline_event :: "api_state \<Rightarrow> api_state" where
  "offline_event s = s\<lparr>isOnline := False\<rparr>"

definition pass_state :: "pass \<Rightarrow> api_state" where
  "pass_state p = (case p of Finished s \<Rightarrow> s | Parked h item rest s \<Rightarrow> s)"

text \<open>Inputs to run the client on.\<close>

definition cart_post :: req_config where
  "cart_post = \<lparr> http_method = Some ''POST'', body = None, headers = None, queueOffline = None \<rparr>"

definition network_failure :: "js_error + response" where
  "network_failure = Inl (TypeError ''Failed to fetch'')"

definition text_response :: "int \<Rightarrow> string \<Rightarrow> string \<Rightarrow> response" where
  "text_response st txt b =
     \<lparr> r_status = st, r_statusText = txt, r_json_type = False,
       r_json = Inl (Thrown ''SyntaxError'' None), r_text = Inr b \<rparr>"

definition quiet_replay :: "response \<Rightarrow> nat \<Rightarrow> item_env" where
  "quiet_replay r k =
     \<lparr> interleaved = (\<lambda>s. s), fetch_result = Inr r, while_reading = (\<lambda>s. s) \<rparr>"

section \<open>Properties of the notification manager\<close>

lemma remove_n_notifications:
  "notifications (remove_n i s) = filter (\<lambda>n. nid n \<noteq> i) (notifications s)"
proof (cases "find (\<lambda>n. nid n = i) (notifications s)")
  case None
  then have "\<forall>n \<in> set (notifications s). nid n \<noteq> i"
    by (simp add: find_None_iff)
  then have "filter (\<lambda>n. nid n \<noteq> i) (notifications s) = notifications s"
    by (simp add: filter_id_conv)
  with None show ?thesis by (simp add: remove_n_def)
next
  case (Some n)
  then show ?thesis by (simp add: remove_n_def)
qed

subsection \<open>Removal\<close>

lemma live_ids_remove: "live_ids (remove_n i s) = filter (\<lambda>x. x \<noteq> i) (live_ids s)"
  by (simp add: live_ids_def remove_n_notifications filter_map comp_def)

lemma remove_n_absent: "i \<notin> set (live_ids s) \<Longrightarrow> remove_n i s = s"
proof -
  assume "i \<notin> set (live_ids s)"
  then have "find (\<lambda>n. nid n = i) (notifications s) = None"
    by (auto simp: find_None_iff live_ids_def)
  then show ?thesis by (simp add: remove_n_def)
qed

lemma remove_n_twice: "remove_n i (remove_n i s) = remove_n i s"
  by (rule remove_n_absent) (simp add: live_ids_remove)

lemma notifications_fold_remove:
  "notifications (fold (\<lambda>n st. if P n then remove_n (nid n) st else st) ns s)
     = filter (\<lambda>m. nid m \<notin> nid ` {n \<in> set ns. P n}) (notifications s)"
proof (induction ns arbitrary: s)
  case Nil
  then show ?case by simp
next
  case (Cons a ns)
  show ?case
  proof (cases "P a")
    case True
    have "notifications (fold (\<lambda>n st. if P n then remove_n (nid n) st else st) (a # ns) s)
          = filter (\<lambda>m. nid m \<notin> nid ` {n \<in> set ns. P n}) (filter (\<lambda>n. nid n \<noteq> nid a) (notifications s))"
      using True by (simp add: Cons.IH remove_n_notifications)
    also have "\<dots> = filter (\<lambda>m. nid m \<notin> nid ` {n \<in> set (a # ns). P n}) (notifications s)"
      using True by (auto intro!: filter_cong)
    finally show ?thesis .
  next
    case False
    have "{n \<in> set (a # ns). P n} = {n \<in> set ns. P n}"
      using False by auto
    then show ?thesis using False by (simp add: Cons.IH)
  qed
qed

lemma notifications_clear: "notifications (clear s) = []"
proof -
  have "notifications (clear s) = filter (\<lambda>m. nid m \<notin> nid ` {n \<in> set (notifications s). True}) (notifications s)"
    unfolding clear_def using notifications_fold_remove [of "\<lambda>n. True" "notifications s" s] by simp
  then show ?thesis by (simp add: filter_empty_conv)
qed

lemma notifications_cleanupExpired:
  "notifications (cleanupExpired s)
     = filter (\<lambda>m. nid m \<notin> nid ` {n \<in> set (notifications s). \<not> persistent n \<and> duration n \<le> clock s - timestamp n})
         (notifications s)"
  unfolding cleanupExpired_def Let_def by (rule notifications_fold_remove)

lemma live_ids_filter:
  "notifications s' = filter Q (notifications s) \<Longrightarrow>
     set (live_ids s') \<subseteq> set (live_ids s) \<and> (distinct (live_ids s) \<longrightarrow> distinct (live_ids s'))"
  by (auto simp: live_ids_def distinct_map_filter)

lemma live_ids_show:
  "live_ids (snd (show_n rnd msg ty opts s)) = live_ids s @ [generateId (clock s) rnd]"
  by (simp add: show_n_def live_ids_def make_notification_def setTimeout_def Let_def)


lemma live_ids_do_call:
  "set (live_ids (apply_call tc s)) \<subseteq> set (live_ids s) \<union> set (generated [tc])
   \<and> (distinct (live_ids s) \<longrightarrow> set (live_ids s) \<inter> set (generated [tc]) = {} \<longrightarrow> distinct (live_ids (apply_call tc s)))"
proof -
  obtain t c where tc: "tc = (t, c)" by (cases tc)
  have clk: "live_ids (s\<lparr>clock := t\<rparr>) = live_ids s" by (simp add: live_ids_def)
  show ?thesis
  proof (cases c)
    case (Remove i)
    then show ?thesis
      by (auto simp: tc apply_call_def live_ids_remove clk generated_def draws_def)
  next
    case Clear
    then show ?thesis
      by (simp add: tc apply_call_def live_ids_def notifications_clear generated_def draws_def)
  next
    case CleanupExpired
    have "notifications (cleanupExpired (s\<lparr>clock := t\<rparr>)) = filter (\<lambda>m. nid m \<notin> nid ` {n \<in> set (notifications s). \<not> persistent n \<and> duration n \<le> t - timestamp n}) (notifications (s\<lparr>clock := t\<rparr>))"
      by (simp add: notifications_cleanupExpired)
    from live_ids_filter [OF this] CleanupExpired show ?thesis
      by (auto simp: tc apply_call_def clk generated_def draws_def)
  qed (auto simp: tc apply_call_def success_def error_def warning_def info_def live_ids_show clk generated_def draws_def)
qed

lemma generated_Cons: "generated (tc # tcs) = generated [tc] @ generated tcs"
  by (simp add: generated_def draws_def)

lemma live_ids_apply_calls:
  "distinct (live_ids s) \<Longrightarrow> distinct (generated tcs) \<Longrightarrow> set (live_ids s) \<inter> set (generated tcs) = {}
   \<Longrightarrow> distinct (live_ids (apply_calls tcs s)) \<and> set (live_ids (apply_calls tcs s)) \<subseteq> set (live_ids s) \<union> set (generated tcs)"
proof (induction tcs arbitrary: s)
  case Nil
  then show ?case by (simp add: apply_calls_def generated_def draws_def)
next
  case (Cons tc tcs)
  let ?s1 = "apply_call tc s"
  from Cons.prems have g: "distinct (generated [tc])" "distinct (generated tcs)"
    "set (generated [tc]) \<inter> set (generated tcs) = {}"
    "set (live_ids s) \<inter> set (generated [tc]) = {}" "set (live_ids s) \<inter> set (generated tcs) = {}"
    by (auto simp: generated_Cons [of tc tcs])
  have d1: "distinct (live_ids ?s1)" and sub1: "set (live_ids ?s1) \<subseteq> set (live_ids s) \<union> set (generated [tc])"
    using live_ids_do_call [of tc s] Cons.prems(1) g(4) by auto
  have "set (live_ids ?s1) \<inter> set (generated tcs) = {}"
    using sub1 g(3) g(5) by auto
  from Cons.IH [OF d1 g(2) this] sub1 show ?case
    by (auto simp: apply_calls_def generated_Cons [of tc tcs])
qed

subsection \<open>Identifiers are determined by the clock and the random suffix\<close>

declare digits.simps [simp del]

lemma digit_char_inj: "a < 10 \<Longrightarrow> b < 10 \<Longrightarrow> digit_char a = digit_char b \<Longrightarrow> a = b"
proof -
  assume a: "a < 10" and b: "b < 10" and e: "digit_char a = digit_char b"
  from e have "(of_char (char_of (48 + a) :: char) :: nat) = of_char (char_of (48 + b) :: char)"
    by (simp add: digit_char_def)
  with a b show "a = b" by simp
qed

lemma digit_char_not_minus: "d < 10 \<Longrightarrow> digit_char d \<noteq> CHR ''-''"
proof
  assume d: "d < 10" and e: "digit_char d = CHR ''-''"
  from e have "(of_char (char_of (48 + d) :: char) :: nat) = of_char (CHR ''-'')"
    by (simp add: digit_char_def)
  with d show False by simp
qed

lemma digits_not_Nil: "digits n \<noteq> []"
  by (subst digits.simps) simp

lemma digits_no_minus: "CHR ''-'' \<notin> set (digits n)"
proof (induction n rule: digits.induct)
  case (1 n)
  show ?case
  proof (cases "n < 10")
    case True
    then show ?thesis by (subst digits.simps) (simp add: digit_char_not_minus[symmetric] digit_char_not_minus)
  next
    case False
    have "n mod 10 < 10" by simp
    then have "digit_char (n mod 10) \<noteq> CHR ''-''" by (rule digit_char_not_minus)
    with False 1 show ?thesis by (subst digits.simps) auto
  qed
qed

lemma digits_inj: "digits n = digits m \<Longrightarrow> n = m"
proof (induction n arbitrary: m rule: digits.induct)
  case (1 n)
  show ?case
  proof (cases "n < 10")
    case True
    note n = True
    show ?thesis
    proof (cases "m < 10")
      case True
      with n 1(2) show ?thesis
        by (simp add: digits.simps [of n] digits.simps [of m] digit_char_inj)
    next
      case False
      with n 1(2) digits_not_Nil [of "m div 10"] show ?thesis
        by (auto simp add: digits.simps [of n] digits.simps [of m])
    qed
  next
    case False
    note n = False
    show ?thesis
    proof (cases "m < 10")
      case True
      with n 1(2) digits_not_Nil [of "n div 10"] show ?thesis
        by (auto simp add: digits.simps [of n] digits.simps [of m])
    next
      case False
      with n 1(2) have e: "digits (n div 10) = digits (m div 10)"
        and l: "digit_char (n mod 10) = digit_char (m mod 10)"
        by (simp_all add: digits.simps [of n] digits.simps [of m])
      from 1(1) [OF n e] have d: "n div 10 = m div 10" .
      have "n mod 10 = m mod 10" using l by (intro digit_char_inj) simp_all
      with d show ?thesis by (metis div_mult_mod_eq)
    qed
  qed
qed

lemma split_at_minus:
  "CHR ''-'' \<notin> set a \<Longrightarrow> CHR ''-'' \<notin> set b \<Longrightarrow> a @ CHR ''-'' # r = b @ CHR ''-'' # r' \<Longrightarrow> a = b \<and> r = r'"
proof (induction a arbitrary: b)
  case Nil
  then show ?case by (cases b) auto
next
  case (Cons x a)
  then show ?case by (cases b) auto
qed

lemma show_int_inj_tail:
  "show_int i @ CHR ''-'' # r = show_int j @ CHR ''-'' # r' \<Longrightarrow> i = j \<and> r = r'"
proof -
  assume e: "show_int i @ CHR ''-'' # r = show_int j @ CHR ''-'' # r'"
  have hd_pos: "\<And>k. \<not> k < 0 \<Longrightarrow> hd (show_int k @ CHR ''-'' # r) \<noteq> CHR ''-''" for r
    using digits_no_minus digits_not_Nil by (metis hd_append2 hd_in_set show_int_def)
  consider (nn) "i < 0" "j < 0" | (np) "i < 0" "\<not> j < 0" | (pn) "\<not> i < 0" "j < 0" | (pp) "\<not> i < 0" "\<not> j < 0"
    by blast
  then show ?thesis
  proof cases
    case nn
    with e have "digits (nat (- i)) @ CHR ''-'' # r = digits (nat (- j)) @ CHR ''-'' # r'"
      by (simp add: show_int_def)
    from split_at_minus [OF digits_no_minus digits_no_minus this] nn show ?thesis
      by (auto dest!: digits_inj)
  next
    case np
    then have "hd (show_int i @ CHR ''-'' # r) = CHR ''-''" by (simp add: show_int_def)
    with hd_pos [OF np(2), of r'] e show ?thesis by simp
  next
    case pn
    then have "hd (show_int j @ CHR ''-'' # r') = CHR ''-''" by (simp add: show_int_def)
    with hd_pos [OF pn(1), of r] e show ?thesis by simp
  next
    case pp
    with e have "digits (nat i) @ CHR ''-'' # r = digits (nat j) @ CHR ''-'' # r'"
      by (simp add: show_int_def)
    from split_at_minus [OF digits_no_minus digits_no_minus this] pp show ?thesis
      by (auto dest!: digits_inj)
  qed
qed

lemma generateId_inj: "generateId t r = generateId t' r' \<Longrightarrow> t = t' \<and> r = r'"
  unfolding generateId_def by (auto dest: show_int_inj_tail)

lemma distinct_generated: "distinct (draws tcs) \<Longrightarrow> distinct (generated tcs)"
  unfolding generated_def
  by (rule iffD2 [OF distinct_map]) (auto simp: inj_on_def dest: generateId_inj intro: prod_eqI)

subsection \<open>The claims about the collection\<close>

text \<open>
  C9: for every severity, \<open>show\<close> with a falsy \<open>duration\<close> option, in particular
  \<open>{duration: 0}\<close>, returns the new identifier and appends to the collection one
  notification whose duration is the default duration of its severity; the call
  is indistinguishable from one that passes no duration at all.
\<close>

theorem show_zero_duration_is_default:
  "notifications (snd (show_n rnd msg ty (opts\<lparr>opt_duration := Some 0\<rparr>) s))
     = notifications s
       @ [\<lparr> nid = generateId (clock s) rnd, message = msg, ntype = ty, timestamp = clock s,
            duration = getDefaultDuration ty, persistent = opt_persistent opts,
            action = action_or_null (opt_action opts) \<rparr>]
   \<and> fst (show_n rnd msg ty (opts\<lparr>opt_duration := Some 0\<rparr>) s) = generateId (clock s) rnd
   \<and> notifications (snd (show_n rnd msg ty (opts\<lparr>opt_duration := None\<rparr>) s))
     = notifications (snd (show_n rnd msg ty (opts\<lparr>opt_duration := Some 0\<rparr>) s))
   \<and> duration (make_notification rnd msg ty (opts\<lparr>opt_duration := Some 0\<rparr>) s) = getDefaultDuration ty
   \<and> show_n rnd msg ty (opts\<lparr>opt_duration := Some 0\<rparr>) s
       = show_n rnd msg ty (opts\<lparr>opt_duration := None\<rparr>) s"
  by (simp add: show_n_def make_notification_def duration_or_def setTimeout_def Let_def)

text \<open>
  C10: \<open>remove(id)\<close> touches only the notifications whose identifier is \<open>id\<close>: the
  others stay in the collection, in the same order and with every attribute as it
  was.
\<close>

theorem remove_frame:
  "filter (\<lambda>n. nid n \<noteq> i) (notifications (remove_n i s))
     = filter (\<lambda>n. nid n \<noteq> i) (notifications s)"
  by (simp add: remove_n_notifications)

text \<open>
  C4, as the code has it. \<open>generateId\<close> concatenates \<open>Date.now()\<close> and a random suffix
  and nothing compares the result with the identifiers already handed out. Provided
  no two calls that show a notification meet the same clock value together with the
  same random suffix, the identifiers generated are pairwise distinct, the live
  collection holds only generated identifiers and holds none twice; \<open>remove(id)\<close>
  applied twice is \<open>remove(id)\<close> applied once, and \<open>remove(id)\<close> of an identifier
  that is not live changes nothing.
\<close>

theorem unique_ids_when_draws_differ:
  assumes "distinct (draws tcs)"
  shows "distinct (generated tcs)
     \<and> distinct (live_ids (apply_calls tcs (init_n c)))
     \<and> set (live_ids (apply_calls tcs (init_n c))) \<subseteq> set (generated tcs)
     \<and> remove_n i (remove_n i s) = remove_n i s
     \<and> (i \<notin> set (live_ids s) \<longrightarrow> remove_n i s = s)"
proof -
  have g: "distinct (generated tcs)"
    using assms by (rule distinct_generated)
  have e: "live_ids (init_n c) = []"
    by (simp add: live_ids_def init_n_def)
  have "distinct (live_ids (apply_calls tcs (init_n c)))
      \<and> set (live_ids (apply_calls tcs (init_n c))) \<subseteq> set (live_ids (init_n c)) \<union> set (generated tcs)"
    by (rule live_ids_apply_calls) (simp_all add: e g)
  with g e show ?thesis
    by (simp add: remove_n_twice remove_n_absent)
qed

theorem unique_ids_when_draws_differ_witness:
  "distinct (draws [(0, Success ''k3j9x0a1b'' ''Added to cart'' no_options),
                    (0, Error ''z81mm2q0c'' ''Failed'' (no_options\<lparr>opt_persistent := True\<rparr>)),
                    (5, Remove ''nobody'')])
   \<and> distinct (live_ids (apply_calls
         [(0, Success ''k3j9x0a1b'' ''Added to cart'' no_options),
          (0, Error ''z81mm2q0c'' ''Failed'' (no_options\<lparr>opt_persistent := True\<rparr>)),
          (5, Remove ''nobody'')] (init_n 0)))
   \<and> ''nobody'' \<notin> set (live_ids (init_n 0))
   \<and> remove_n ''nobody'' (init_n 0) = init_n 0"
  using unique_ids_when_draws_differ
    [of "[(0, Success ''k3j9x0a1b'' ''Added to cart'' no_options),
          (0, Error ''z81mm2q0c'' ''Failed'' (no_options\<lparr>opt_persistent := True\<rparr>)),
          (5, Remove ''nobody'')]" 0 "''nobody''" "init_n 0"]
  by (simp add: draws_def live_ids_def init_n_def)

text \<open>
  The claim as the specification words it fails: two \<open>show\<close> calls in the same
  millisecond that draw the same random suffix put one identifier into the live
  collection twice.
\<close>

theorem duplicate_ids_counterexample:
  "\<not> distinct (live_ids (apply_calls
        [(0, Success ''k3j9x0a1b'' ''Added to cart'' no_options),
         (0, Error ''k3j9x0a1b'' ''Failed'' no_options)] (init_n 0)))"
  by (simp add: apply_calls_def apply_call_def success_def error_def show_n_def
      make_notification_def setTimeout_def live_ids_def init_n_def Let_def)

subsection \<open>The event loop keeps its invariants\<close>

lemma take_due_Some:
  "take_due now ts = Some (x, rest) \<Longrightarrow>
     fst x \<le> now \<and> set ts = insert x (set rest)"
  by (induction ts arbitrary: rest) (auto split: if_splits option.splits)

lemma show_n_fields:
  "notifications (snd (show_n rnd msg ty opts s)) = notifications s @ [make_notification rnd msg ty opts s]"
  "timers (snd (show_n rnd msg ty opts s)) = timers s @
      (if opt_persistent opts then []
       else [(clock s + max 0 (duration (make_notification rnd msg ty opts s)),
              RemoveTimer (generateId (clock s) rnd))])"
  "clock (snd (show_n rnd msg ty opts s)) = clock s"
  "queue (snd (show_n rnd msg ty opts s)) = queue s"
  "isProcessing (snd (show_n rnd msg ty opts s)) = isProcessing s"
  "resolved (snd (show_n rnd msg ty opts s)) = resolved s"
  "promises (snd (show_n rnd msg ty opts s)) = promises s"
  "fst (show_n rnd msg ty opts s) = generateId (clock s) rnd"
  by (simp_all add: show_n_def Let_def setTimeout_def make_notification_def)

lemma make_notification_fields:
  "nid (make_notification rnd msg ty opts s) = generateId (clock s) rnd"
  "timestamp (make_notification rnd msg ty opts s) = clock s"
  "persistent (make_notification rnd msg ty opts s) = opt_persistent opts"
  "message (make_notification rnd msg ty opts s) = msg"
  by (simp_all add: make_notification_def)

lemma remove_n_fields:
  "timers (remove_n i s) = timers s"
  "clock (remove_n i s) = clock s"
  "queue (remove_n i s) = queue s"
  "isProcessing (remove_n i s) = isProcessing s"
  by (simp_all add: remove_n_def split: option.splits)

lemma fold_remove_fields:
  "timers (fold (\<lambda>n st. if P n then remove_n (nid n) st else st) ns s) = timers s"
  "clock (fold (\<lambda>n st. if P n then remove_n (nid n) st else st) ns s) = clock s"
  by (induction ns arbitrary: s) (simp_all add: remove_n_fields)

lemma clear_fields: "timers (clear s) = timers s" "clock (clear s) = clock s"
  using fold_remove_fields [of "\<lambda>n. True" "notifications s" s] by (simp_all add: clear_def)

lemma cleanupExpired_fields: "timers (cleanupExpired s) = timers s" "clock (cleanupExpired s) = clock s"
  by (simp_all add: cleanupExpired_def Let_def fold_remove_fields)

lemma timely_show: "timely s \<Longrightarrow> timely (snd (show_n rnd msg ty opts s))"
  by (auto simp: timely_def show_n_fields)

lemma armed_show: "armed s \<Longrightarrow> armed (snd (show_n rnd msg ty opts s))"
  by (auto simp: armed_def show_n_fields make_notification_fields)

lemma armed_filter:
  "armed s \<Longrightarrow> notifications s' = filter Q (notifications s) \<Longrightarrow> timers s' = timers s \<Longrightarrow> armed s'"
  by (auto simp: armed_def)

lemma timely_same: "timely s \<Longrightarrow> timers s' = timers s \<Longrightarrow> clock s' = clock s \<Longrightarrow> timely s'"
  by (simp add: timely_def)

lemma processQueue_n_cases:
  "(queue s = [] \<and> processQueue_n rnd s = s\<lparr>isProcessing := False\<rparr>)
   \<or> (\<exists>q rest. queue s = q # rest \<and>
        processQueue_n rnd s =
          setTimeout (QueueTimer (q_resolve q) (generateId (clock s) rnd))
            (duration_or (opt_duration (q_options q)) (getDefaultDuration (q_type q)) + 300)
            (snd (show_n rnd (q_message q) (q_type q) (q_options q) (s\<lparr>isProcessing := True, queue := rest\<rparr>))))"
proof (cases "queue s")
  case Nil
  then show ?thesis by (simp add: processQueue_n_def)
next
  case (Cons q rest)
  obtain i s2 where sh: "show_n rnd (q_message q) (q_type q) (q_options q) (s\<lparr>isProcessing := True, queue := rest\<rparr>) = (i, s2)"
    by (cases "show_n rnd (q_message q) (q_type q) (q_options q) (s\<lparr>isProcessing := True, queue := rest\<rparr>)")
  from show_n_fields(8) [of rnd "q_message q" "q_type q" "q_options q" "s\<lparr>isProcessing := True, queue := rest\<rparr>"] sh
  have "i = generateId (clock s) rnd" by simp
  with Cons sh show ?thesis by (simp add: processQueue_n_def Let_def)
qed

lemma timely_setTimeout: "timely s \<Longrightarrow> timely (setTimeout a d s)"
  by (auto simp: timely_def setTimeout_def)

lemma armed_setTimeout: "armed s \<Longrightarrow> armed (setTimeout a d s)"
  by (auto simp: armed_def setTimeout_def)

lemma timely_upd [simp]:
  "timely (s\<lparr>isProcessing := b\<rparr>) = timely s"
  "timely (s\<lparr>queue := q\<rparr>) = timely s"
  "timely (s\<lparr>resolved := r\<rparr>) = timely s"
  "timely (s\<lparr>promises := p\<rparr>) = timely s"
  by (simp_all add: timely_def)

lemma armed_upd [simp]:
  "armed (s\<lparr>isProcessing := b\<rparr>) = armed s"
  "armed (s\<lparr>queue := q\<rparr>) = armed s"
  "armed (s\<lparr>resolved := r\<rparr>) = armed s"
  "armed (s\<lparr>promises := p\<rparr>) = armed s"
  "armed (s\<lparr>clock := t\<rparr>) = armed s"
  by (simp_all add: armed_def)

lemma timely_processQueue_n: "timely s \<Longrightarrow> timely (processQueue_n rnd s)"
  using processQueue_n_cases [of s rnd]
  by (auto intro!: timely_setTimeout timely_show)

lemma armed_processQueue_n: "armed s \<Longrightarrow> armed (processQueue_n rnd s)"
  using processQueue_n_cases [of s rnd]
  by (auto intro!: armed_setTimeout armed_show)

lemma timely_showQueued: "timely s \<Longrightarrow> timely (snd (showQueued rnd msg ty opts s))"
  by (simp add: showQueued_def Let_def timely_processQueue_n)

lemma armed_showQueued: "armed s \<Longrightarrow> armed (snd (showQueued rnd msg ty opts s))"
  by (simp add: showQueued_def Let_def armed_processQueue_n)

lemma timely_do_call: "timely s \<Longrightarrow> timely (do_call c s)"
  by (cases c) (auto simp: success_def error_def warning_def info_def timely_show
      intro: timely_same [of s] simp: remove_n_fields clear_fields cleanupExpired_fields)

lemma armed_do_call: "armed s \<Longrightarrow> armed (do_call c s)"
proof (cases c)
  case (Remove i)
  then show "armed s \<Longrightarrow> armed (do_call c s)"
    using armed_filter [of s "remove_n i s"] by (simp add: remove_n_notifications remove_n_fields)
next
  case Clear
  then show "armed s \<Longrightarrow> armed (do_call c s)"
    by (simp add: armed_def notifications_clear)
next
  case CleanupExpired
  then show "armed s \<Longrightarrow> armed (do_call c s)"
    using armed_filter [of s "cleanupExpired s"] by (simp add: notifications_cleanupExpired cleanupExpired_fields)
qed (simp_all add: success_def error_def warning_def info_def armed_show)

lemma timely_fire: "timely s \<Longrightarrow> fire rnd s = Some s' \<Longrightarrow> timely s'"
proof -
  assume t: "timely s" and f: "fire rnd s = Some s'"
  from f obtain d a rest where td: "take_due (clock s) (timers s) = Some ((d, a), rest)"
    and s': "s' = run_timer rnd d a (s\<lparr>timers := rest\<rparr>)"
    by (auto simp: fire_def split: option.splits)
  from take_due_Some [OF td] have d: "d \<le> clock s" and st: "set (timers s) = insert (d, a) (set rest)"
    by simp_all
  from t st have dc: "clock s \<le> d" by (auto simp: timely_def)
  from t st have t0: "timely (s\<lparr>timers := rest\<rparr>)" by (auto simp: timely_def)
  show "timely s'"
  proof (cases a)
    case (RemoveTimer i)
    with t0 s' show ?thesis by (auto simp: run_timer_def intro: timely_same simp: remove_n_fields)
  next
    case (QueueTimer h i)
    with t0 s' show ?thesis by (simp add: run_timer_def timely_processQueue_n)
  next
    case SweepTimer
    have "timely (s\<lparr>timers := rest @ [(d + 1000, SweepTimer)]\<rparr>)"
      using t0 dc by (auto simp: timely_def)
    with SweepTimer s' show ?thesis
      by (auto simp: run_timer_def intro: timely_same simp: cleanupExpired_fields)
  qed
qed

lemma armed_fire: "armed s \<Longrightarrow> fire rnd s = Some s' \<Longrightarrow> armed s'"
proof -
  assume t: "armed s" and f: "fire rnd s = Some s'"
  from f obtain d a rest where td: "take_due (clock s) (timers s) = Some ((d, a), rest)"
    and s': "s' = run_timer rnd d a (s\<lparr>timers := rest\<rparr>)"
    by (auto simp: fire_def split: option.splits)
  from take_due_Some [OF td] have st: "set (timers s) = insert (d, a) (set rest)"
    by simp
  show "armed s'"
  proof (cases a)
    case (RemoveTimer i)
    have "armed (remove_n i (s\<lparr>timers := rest\<rparr>))"
      using t st RemoveTimer by (auto simp: armed_def remove_n_notifications remove_n_fields)
    with RemoveTimer s' show ?thesis by (simp add: run_timer_def)
  next
    case (QueueTimer h i)
    have "armed (s\<lparr>timers := rest\<rparr>)"
      using t st QueueTimer by (auto simp: armed_def)
    with QueueTimer s' show ?thesis by (simp add: run_timer_def armed_processQueue_n)
  next
    case SweepTimer
    let ?s1 = "s\<lparr>timers := rest @ [(d + 1000, SweepTimer)]\<rparr>"
    have "armed ?s1"
      using t st SweepTimer by (auto simp: armed_def)
    from armed_filter [OF this, of "cleanupExpired ?s1"] SweepTimer s' show ?thesis
      by (simp add: run_timer_def notifications_cleanupExpired cleanupExpired_fields)
  qed
qed

lemma step_invariant: "timely s \<and> armed s \<Longrightarrow> step e s = Some s' \<Longrightarrow> timely s' \<and> armed s'"
proof (cases e)
  case (Do c)
  then show "timely s \<and> armed s \<Longrightarrow> step e s = Some s' \<Longrightarrow> timely s' \<and> armed s'"
    by (auto simp: timely_do_call armed_do_call)
next
  case (ShowQueued rnd msg ty opts)
  then show "timely s \<and> armed s \<Longrightarrow> step e s = Some s' \<Longrightarrow> timely s' \<and> armed s'"
    by (auto simp: timely_showQueued armed_showQueued)
next
  case (Fire rnd)
  then show "timely s \<and> armed s \<Longrightarrow> step e s = Some s' \<Longrightarrow> timely s' \<and> armed s'"
    by (auto dest: timely_fire armed_fire)
next
  case (Advance t)
  then show "timely s \<and> armed s \<Longrightarrow> step e s = Some s' \<Longrightarrow> timely s' \<and> armed s'"
    by (fastforce simp: timely_def list_all_iff split: if_splits)
qed

lemma run_invariant: "timely s \<and> armed s \<Longrightarrow> run es s = Some s' \<Longrightarrow> timely s' \<and> armed s'"
proof (induction es arbitrary: s)
  case Nil
  then show ?case by simp
next
  case (Cons e es)
  from Cons.prems(2) obtain s1 where s1: "step e s = Some s1" "run es s1 = Some s'"
    by (auto split: option.splits)
  from step_invariant [OF Cons.prems(1) s1(1)] Cons.IH s1(2) show ?case by blast
qed

lemma init_invariant: "timely (init_n c) \<and> armed (init_n c)"
  by (simp add: timely_def armed_def init_n_def)

lemma expired_not_live:
  assumes "run es (init_n c) = Some s" and "n \<in> set (notifications s)" and "\<not> persistent n"
  shows "clock s \<le> timestamp n + max 0 (duration n)"
proof -
  from run_invariant [OF init_invariant assms(1)] have "timely s" "armed s" by simp_all
  with assms(2,3) show ?thesis by (force simp: timely_def armed_def)
qed


lemma owned_mono: "owned R s \<Longrightarrow> R \<subseteq> R' \<Longrightarrow> owned R' s"
  unfolding owned_def by blast

lemma owned_upd [simp]:
  "owned R (s\<lparr>isProcessing := b\<rparr>) = owned R s"
  "owned R (s\<lparr>queue := q\<rparr>) = owned R s"
  "owned R (s\<lparr>resolved := r\<rparr>) = owned R s"
  "owned R (s\<lparr>promises := p\<rparr>) = owned R s"
  "owned R (s\<lparr>clock := t\<rparr>) = owned R s"
  by (simp_all add: owned_def live_ids_def)

lemma owned_filter:
  assumes "owned R s" and "notifications s' = filter Q (notifications s)"
    and "\<forall>tm \<in> set (timers s'). \<forall>i. snd tm = RemoveTimer i \<longrightarrow> tm \<in> set (timers s)"
  shows "owned R s'"
proof -
  have "distinct (live_ids s')"
    using assms(1,2) by (simp add: owned_def live_ids_def distinct_map_filter)
  moreover have "\<forall>n \<in> set (notifications s'). \<exists>t r. r \<in> R \<and> nid n = generateId t r"
    using assms(1,2) by (simp add: owned_def)
  moreover have "\<forall>tm \<in> set (timers s'). \<forall>i. snd tm = RemoveTimer i \<longrightarrow>
            (\<exists>t r. r \<in> R \<and> i = generateId t r)
            \<and> (\<forall>n \<in> set (notifications s'). nid n = i \<longrightarrow> \<not> persistent n)"
  proof (intro ballI allI impI)
    fix tm i assume tm: "tm \<in> set (timers s')" and i: "snd tm = RemoveTimer i"
    with assms(3) have "tm \<in> set (timers s)" by blast
    with assms(1) i have "(\<exists>t r. r \<in> R \<and> i = generateId t r)
        \<and> (\<forall>n \<in> set (notifications s). nid n = i \<longrightarrow> \<not> persistent n)"
      unfolding owned_def by blast
    with assms(2) show "(\<exists>t r. r \<in> R \<and> i = generateId t r)
        \<and> (\<forall>n \<in> set (notifications s'). nid n = i \<longrightarrow> \<not> persistent n)" by simp
  qed
  ultimately show ?thesis unfolding owned_def by blast
qed

lemma owned_show:
  assumes "owned R s" and "rnd \<notin> R"
  shows "owned (insert rnd R) (snd (show_n rnd msg ty opts s))"
proof -
  let ?n = "make_notification rnd msg ty opts s"
  let ?s' = "snd (show_n rnd msg ty opts s)"
  have fresh: "\<forall>t r. r \<in> R \<longrightarrow> generateId t r \<noteq> nid ?n"
    using assms(2) by (auto simp: make_notification_fields dest: generateId_inj)
  have new_live: "nid ?n \<notin> set (live_ids s)"
    using assms(1) fresh by (fastforce simp: owned_def live_ids_def)
  have d: "distinct (live_ids ?s')"
    using assms(1) new_live by (simp add: owned_def live_ids_def show_n_fields)
  have g: "\<forall>n \<in> set (notifications ?s'). \<exists>t r. r \<in> insert rnd R \<and> nid n = generateId t r"
  proof
    fix n assume "n \<in> set (notifications ?s')"
    then consider "n \<in> set (notifications s)" | "n = ?n" by (auto simp: show_n_fields)
    then show "\<exists>t r. r \<in> insert rnd R \<and> nid n = generateId t r"
    proof cases
      case 1
      with assms(1) show ?thesis unfolding owned_def by blast
    next
      case 2
      then show ?thesis by (auto simp: make_notification_fields)
    qed
  qed
  have tmr: "\<forall>tm \<in> set (timers ?s'). \<forall>i. snd tm = RemoveTimer i \<longrightarrow>
            (\<exists>t r. r \<in> insert rnd R \<and> i = generateId t r)
            \<and> (\<forall>n \<in> set (notifications ?s'). nid n = i \<longrightarrow> \<not> persistent n)"
  proof (intro ballI allI impI)
    fix tm i assume tm: "tm \<in> set (timers ?s')" and i: "snd tm = RemoveTimer i"
    from tm consider (old) "tm \<in> set (timers s)"
      | (new) "\<not> opt_persistent opts" "snd tm = RemoveTimer (generateId (clock s) rnd)"
      by (auto simp: show_n_fields split: if_splits)
    then show "(\<exists>t r. r \<in> insert rnd R \<and> i = generateId t r)
            \<and> (\<forall>n \<in> set (notifications ?s'). nid n = i \<longrightarrow> \<not> persistent n)"
    proof cases
      case old
      with assms(1) i have o: "\<exists>t r. r \<in> R \<and> i = generateId t r"
        "\<forall>n \<in> set (notifications s). nid n = i \<longrightarrow> \<not> persistent n"
        unfolding owned_def by blast+
      from o(1) obtain t r where tr: "r \<in> R" "i = generateId t r" by blast
      from fresh tr(1) have "generateId t r \<noteq> nid ?n" by blast
      with tr(2) have "nid ?n \<noteq> i" by simp
      with o show ?thesis by (auto simp: show_n_fields)
    next
      case new
      with i have ii: "i = nid ?n" by (simp add: make_notification_fields)
      have "\<forall>n \<in> set (notifications s). nid n \<noteq> nid ?n"
      proof
        fix n assume "n \<in> set (notifications s)"
        then have "nid n \<in> set (live_ids s)" by (simp add: live_ids_def)
        with new_live show "nid n \<noteq> nid ?n" by metis
      qed
      with ii new(1) show ?thesis
        by (auto simp: show_n_fields make_notification_fields)
    qed
  qed
  from d g tmr show ?thesis unfolding owned_def by blast
qed

lemma owned_setTimeout_queue: "owned R s \<Longrightarrow> owned R (setTimeout (QueueTimer h i) d s)"
  by (auto simp: owned_def setTimeout_def live_ids_def)

lemma owned_processQueue_n:
  assumes "owned R s" and "rnd \<notin> R"
  shows "owned (insert rnd R) (processQueue_n rnd s)"
  using processQueue_n_cases [of s rnd]
proof
  assume "queue s = [] \<and> processQueue_n rnd s = s\<lparr>isProcessing := False\<rparr>"
  with assms(1) show ?thesis by (auto intro: owned_mono)
next
  assume "\<exists>q rest. queue s = q # rest \<and>
        processQueue_n rnd s =
          setTimeout (QueueTimer (q_resolve q) (generateId (clock s) rnd))
            (duration_or (opt_duration (q_options q)) (getDefaultDuration (q_type q)) + 300)
            (snd (show_n rnd (q_message q) (q_type q) (q_options q) (s\<lparr>isProcessing := True, queue := rest\<rparr>)))"
  then obtain q :: queued and rest where pq: "processQueue_n rnd s =
          setTimeout (QueueTimer (q_resolve q) (generateId (clock s) rnd))
            (duration_or (opt_duration (q_options q)) (getDefaultDuration (q_type q)) + 300)
            (snd (show_n rnd (q_message q) (q_type q) (q_options q) (s\<lparr>isProcessing := True, queue := rest\<rparr>)))"
    by blast
  have "owned R (s\<lparr>isProcessing := True, queue := rest\<rparr>)" using assms(1) by simp
  from owned_show [OF this assms(2)] show ?thesis
    unfolding pq by (rule owned_setTimeout_queue)
qed

lemma owned_showQueued:
  assumes "owned R s" and "rnd \<notin> R"
  shows "owned (insert rnd R) (snd (showQueued rnd msg ty opts s))"
proof (cases "isProcessing s")
  case True
  with assms(1) show ?thesis by (auto simp: showQueued_def Let_def intro: owned_mono)
next
  case False
  have "owned R (s\<lparr>queue := queue s @ [\<lparr> q_message = msg, q_type = ty, q_options = opts, q_resolve = promises s \<rparr>],
                 promises := promises s + 1\<rparr>)"
    using assms(1) by simp
  from owned_processQueue_n [OF this assms(2)] False show ?thesis
    by (simp add: showQueued_def Let_def)
qed

lemma owned_do_call:
  assumes "owned R s" and "set (event_rnd (Do c)) \<inter> R = {}"
  shows "owned (R \<union> set (event_rnd (Do c))) (do_call c s)"
proof (cases c)
  case (Remove i)
  from owned_filter [OF assms(1), of "remove_n i s"] Remove show ?thesis
    by (simp add: remove_n_notifications remove_n_fields)
next
  case Clear
  from owned_filter [OF assms(1), of "clear s" "\<lambda>n. False"] Clear show ?thesis
    by (simp add: notifications_clear clear_fields)
next
  case CleanupExpired
  from owned_filter [OF assms(1), of "cleanupExpired s"] CleanupExpired show ?thesis
    by (simp add: notifications_cleanupExpired cleanupExpired_fields)
qed (use assms in \<open>simp_all add: success_def error_def warning_def info_def owned_show\<close>)

lemma owned_fire:
  assumes "owned R s" and "rnd \<notin> R" and "fire rnd s = Some s'"
  shows "owned (insert rnd R) s'"
proof -
  from assms(3) obtain d a rest where td: "take_due (clock s) (timers s) = Some ((d, a), rest)"
    and s': "s' = run_timer rnd d a (s\<lparr>timers := rest\<rparr>)"
    by (auto simp: fire_def split: option.splits)
  from take_due_Some [OF td] have st: "set (timers s) = insert (d, a) (set rest)"
    by simp
  have o0: "owned R (s\<lparr>timers := rest\<rparr>)"
    using owned_filter [OF assms(1), of "s\<lparr>timers := rest\<rparr>" "\<lambda>n. True"] st by auto
  show ?thesis
  proof (cases a)
    case (RemoveTimer i)
    from owned_filter [OF o0, of "remove_n i (s\<lparr>timers := rest\<rparr>)"] RemoveTimer s'
    show ?thesis by (auto simp: run_timer_def remove_n_notifications remove_n_fields intro: owned_mono)
  next
    case (QueueTimer h i)
    have "owned R (s\<lparr>timers := rest, resolved := resolved s @ [(h, i)]\<rparr>)" using o0 by simp
    from owned_processQueue_n [OF this assms(2)] QueueTimer s' show ?thesis
      by (simp add: run_timer_def)
  next
    case SweepTimer
    let ?s1 = "s\<lparr>timers := rest @ [(d + 1000, SweepTimer)]\<rparr>"
    have "owned R ?s1"
      using owned_filter [OF o0, of ?s1 "\<lambda>n. True"] by auto
    from owned_filter [OF this, of "cleanupExpired ?s1"] SweepTimer s' show ?thesis
      by (auto simp: run_timer_def notifications_cleanupExpired cleanupExpired_fields intro: owned_mono)
  qed
qed

lemma owned_step:
  assumes "owned R s" and "set (event_rnd e) \<inter> R = {}" and "step e s = Some s'"
  shows "owned (R \<union> set (event_rnd e)) s'"
proof (cases e)
  case (Do c)
  with owned_do_call [OF assms(1), of c] assms(2,3) show ?thesis by auto
next
  case (ShowQueued rnd msg ty opts)
  with owned_showQueued [OF assms(1), of rnd msg ty opts] assms(2,3) show ?thesis by auto
next
  case (Fire rnd)
  with owned_fire [OF assms(1), of rnd s'] assms(2,3) show ?thesis by auto
next
  case (Advance t)
  with assms show ?thesis by (auto split: if_splits)
qed

lemma owned_run:
  "owned R s \<Longrightarrow> distinct (rnds es) \<Longrightarrow> set (rnds es) \<inter> R = {} \<Longrightarrow> run es s = Some s'
     \<Longrightarrow> owned (R \<union> set (rnds es)) s'"
proof (induction es arbitrary: R s)
  case Nil
  then show ?case by (simp add: rnds_def)
next
  case (Cons e es)
  from Cons.prems(4) obtain s1 where s1: "step e s = Some s1" "run es s1 = Some s'"
    by (auto split: option.splits)
  have r: "rnds (e # es) = event_rnd e @ rnds es" by (simp add: rnds_def)
  from Cons.prems(2,3) have a: "set (event_rnd e) \<inter> R = {}" "distinct (rnds es)"
    "set (rnds es) \<inter> (R \<union> set (event_rnd e)) = {}"
    by (auto simp: r)
  from owned_step [OF Cons.prems(1) a(1) s1(1)] have "owned (R \<union> set (event_rnd e)) s1" .
  from Cons.IH [OF this a(2) a(3) s1(2)] show ?case by (simp add: r Un_assoc)
qed

lemma owned_init: "owned {} (init_n c)"
  by (simp add: owned_def init_n_def live_ids_def)

lemma persistent_kept_by_cleanup:
  assumes "distinct (live_ids s)" and "n \<in> set (notifications s)" and "persistent n"
  shows "n \<in> set (notifications (cleanupExpired s))"
proof -
  have "nid n \<notin> nid ` {m \<in> set (notifications s). \<not> persistent m \<and> duration m \<le> clock s - timestamp m}"
  proof
    assume "nid n \<in> nid ` {m \<in> set (notifications s). \<not> persistent m \<and> duration m \<le> clock s - timestamp m}"
    then obtain m where m: "m \<in> set (notifications s)" "\<not> persistent m" "nid m = nid n" by auto
    from assms(1) have "inj_on nid (set (notifications s))"
      by (simp add: live_ids_def distinct_map)
    with m(1,3) assms(2) have "m = n" by (auto dest: inj_onD)
    with m(2) assms(3) show False by simp
  qed
  with assms(2) show ?thesis by (simp add: notifications_cleanupExpired)
qed

lemma processQueue_n_keeps: "n \<in> set (notifications s) \<Longrightarrow> n \<in> set (notifications (processQueue_n rnd s))"
  using processQueue_n_cases [of s rnd]
  by (auto simp: setTimeout_def show_n_fields)

lemma persistent_survives:
  assumes "owned R s" and "n \<in> set (notifications s)" and "persistent n"
    and "step e s = Some s'" and "e \<noteq> Do Clear" and "e \<noteq> Do (Remove (nid n))"
  shows "n \<in> set (notifications s')"
proof (cases e)
  case (Do c)
  show ?thesis
  proof (cases c)
    case (Remove i)
    with Do assms show ?thesis by (auto simp: remove_n_notifications)
  next
    case Clear
    with Do assms show ?thesis by simp
  next
    case CleanupExpired
    with Do assms persistent_kept_by_cleanup [of s n] show ?thesis by (auto simp: owned_def)
  qed (use Do assms in \<open>auto simp: success_def error_def warning_def info_def show_n_fields\<close>)
next
  case (ShowQueued rnd msg ty opts)
  with assms show ?thesis
    by (auto simp: showQueued_def Let_def intro!: processQueue_n_keeps)
next
  case (Fire rnd)
  with assms(4) obtain d a rest where td: "take_due (clock s) (timers s) = Some ((d, a), rest)"
    and s': "s' = run_timer rnd d a (s\<lparr>timers := rest\<rparr>)"
    by (auto simp: fire_def split: option.splits)
  from take_due_Some [OF td] have st: "(d, a) \<in> set (timers s)" by simp
  show ?thesis
  proof (cases a)
    case (RemoveTimer i)
    with st assms(1,2,3) have "nid n \<noteq> i" unfolding owned_def by fastforce
    with RemoveTimer s' assms(2) show ?thesis by (simp add: run_timer_def remove_n_notifications)
  next
    case (QueueTimer h i)
    with s' assms(2) show ?thesis by (auto simp: run_timer_def intro!: processQueue_n_keeps)
  next
    case SweepTimer
    let ?s1 = "s\<lparr>timers := rest @ [(d + 1000, SweepTimer)]\<rparr>"
    have "distinct (live_ids ?s1)" using assms(1) by (simp add: owned_def live_ids_def)
    from persistent_kept_by_cleanup [OF this, of n] assms(2,3) SweepTimer s' show ?thesis
      by (simp add: run_timer_def)
  qed
next
  case (Advance t)
  with assms show ?thesis by (auto split: if_splits)
qed

lemma generateId_eq_iff: "generateId t r = generateId t' r' \<longleftrightarrow> t = t' \<and> r = r'"
  using generateId_inj by blast

lemma rnds_append: "rnds (es @ es') = rnds es @ rnds es'"
  by (simp add: rnds_def)

lemma persistent_survives_run:
  "owned R s \<Longrightarrow> distinct (rnds es) \<Longrightarrow> set (rnds es) \<inter> R = {} \<Longrightarrow> m \<in> set (notifications s)
     \<Longrightarrow> persistent m \<Longrightarrow> Do Clear \<notin> set es \<Longrightarrow> Do (Remove (nid m)) \<notin> set es
     \<Longrightarrow> run es s = Some s' \<Longrightarrow> m \<in> set (notifications s')"
proof (induction es arbitrary: R s)
  case Nil
  then show ?case by simp
next
  case (Cons e es)
  from Cons.prems(8) obtain s1 where s1: "step e s = Some s1" "run es s1 = Some s'"
    by (auto split: option.splits)
  have r: "rnds (e # es) = event_rnd e @ rnds es" by (simp add: rnds_def)
  from Cons.prems(2,3) have a: "set (event_rnd e) \<inter> R = {}" "distinct (rnds es)"
    "set (rnds es) \<inter> (R \<union> set (event_rnd e)) = {}"
    by (auto simp: r)
  from Cons.prems(6,7) have ne: "e \<noteq> Do Clear" "e \<noteq> Do (Remove (nid m))"
    "Do Clear \<notin> set es" "Do (Remove (nid m)) \<notin> set es" by auto
  have o1: "owned (R \<union> set (event_rnd e)) s1"
    using owned_step [OF Cons.prems(1) a(1) s1(1)] .
  have m1: "m \<in> set (notifications s1)"
    using persistent_survives [OF Cons.prems(1) Cons.prems(4) Cons.prems(5) s1(1) ne(1) ne(2)] .
  from Cons.IH [OF o1 a(2) a(3) m1 Cons.prems(5) ne(3) ne(4) s1(2)] show ?case .
qed

lemmas run_defs = success_def error_def warning_def info_def show_n_def make_notification_def
  setTimeout_def fire_def run_timer_def cleanupExpired_def remove_n_def generateId_eq_iff init_n_def
  no_options_def sticky_def duration_or_def getDefaultDuration_def action_or_null_def Let_def
  processQueue_n_def showQueued_def

subsection \<open>The claims about expiry and the sequential queue\<close>

text \<open>
  C7, as the code has it, for any run of the event loop in which timers fire on
  time. A notification that is not persistent is no longer live once the clock
  has reached its creation time plus its duration (a negative duration counting
  as zero, as \<open>setTimeout\<close> takes it) plus the 1000 milliseconds of the sweep. A
  persistent notification that is live stays live through everything that follows,
  sweeps and timers included, as long as there is no \<open>clear()\<close> and no \<open>remove\<close> of
  its identifier, provided the runtime never hands out the same random suffix
  twice, so that no other notification shares its identifier.
\<close>

theorem expiry_and_persistence:
  assumes "run es (init_n c) = Some s"
  shows "(\<not> persistent n \<and> timestamp n + max 0 (duration n) + 1000 \<le> clock s
            \<longrightarrow> n \<notin> set (notifications s))
       \<and> (distinct (rnds (es @ es')) \<and> m \<in> set (notifications s) \<and> persistent m
            \<and> Do Clear \<notin> set es' \<and> Do (Remove (nid m)) \<notin> set es' \<and> run es' s = Some s'
            \<longrightarrow> m \<in> set (notifications s'))"
proof
  show "\<not> persistent n \<and> timestamp n + max 0 (duration n) + 1000 \<le> clock s
            \<longrightarrow> n \<notin> set (notifications s)"
    using expired_not_live [OF assms, of n] by auto
  show "distinct (rnds (es @ es')) \<and> m \<in> set (notifications s) \<and> persistent m
            \<and> Do Clear \<notin> set es' \<and> Do (Remove (nid m)) \<notin> set es' \<and> run es' s = Some s'
            \<longrightarrow> m \<in> set (notifications s')"
  proof
    assume h: "distinct (rnds (es @ es')) \<and> m \<in> set (notifications s) \<and> persistent m
            \<and> Do Clear \<notin> set es' \<and> Do (Remove (nid m)) \<notin> set es' \<and> run es' s = Some s'"
    then have d: "distinct (rnds es)" "distinct (rnds es')" "set (rnds es') \<inter> set (rnds es) = {}"
      by (auto simp: rnds_append)
    have "owned ({} \<union> set (rnds es)) s"
      using owned_run [OF owned_init d(1) _ assms] by simp
    then have o: "owned (set (rnds es)) s" by simp
    from h persistent_survives_run [OF o d(2) d(3), of m s'] show "m \<in> set (notifications s')"
      by blast
  qed
qed

theorem expiry_and_persistence_witness:
  "run scenario (init_n 0) = Some after_scenario
   \<and> \<not> persistent added_to_cart
   \<and> timestamp added_to_cart + max 0 (duration added_to_cart) + 1000 \<le> clock after_scenario
   \<and> added_to_cart \<notin> set (notifications after_scenario)
   \<and> distinct (rnds (scenario @ later))
   \<and> failed_note \<in> set (notifications after_scenario) \<and> persistent failed_note
   \<and> Do Clear \<notin> set later \<and> Do (Remove (nid failed_note)) \<notin> set later
   \<and> run later after_scenario = Some (after_scenario\<lparr>timers := [(6000, SweepTimer)], clock := 5000\<rparr>)
   \<and> failed_note \<in> set (notifications (after_scenario\<lparr>timers := [(6000, SweepTimer)], clock := 5000\<rparr>))"
proof -
  have r1: "run scenario (init_n 0) = Some after_scenario"
    by (simp add: scenario_def after_scenario_def failed_note_def run_defs)
  have r2: "run later after_scenario = Some (after_scenario\<lparr>timers := [(6000, SweepTimer)], clock := 5000\<rparr>)"
    by (simp add: later_def after_scenario_def failed_note_def run_defs)
  have d: "distinct (rnds (scenario @ later))"
    by (simp add: scenario_def later_def rnds_def)
  from expiry_and_persistence [OF r1, of added_to_cart later failed_note
      "after_scenario\<lparr>timers := [(6000, SweepTimer)], clock := 5000\<rparr>"] r1 r2 d
  show ?thesis
    by (simp add: later_def after_scenario_def failed_note_def added_to_cart_def)
qed

text \<open>
  The claim as the specification words it fails when two notifications draw the
  same identifier: the timer of the first one removes the persistent second one as
  well, with no \<open>remove\<close> and no \<open>clear()\<close> in the run.
\<close>

theorem persistent_removed_counterexample:
  "run [Do (Success ''k3j9x0a1b'' ''Added to cart'' no_options), Do (Error ''k3j9x0a1b'' ''Failed'' sticky)]
       (init_n 0)
     = Some \<lparr> notifications = [added_to_cart, failed_note\<lparr>nid := generateId 0 ''k3j9x0a1b''\<rparr>],
              queue = [], isProcessing = False,
              timers = [(1000, SweepTimer), (3000, RemoveTimer (generateId 0 ''k3j9x0a1b''))],
              clock = 0, resolved = [], promises = 0 \<rparr>
   \<and> run [Do (Success ''k3j9x0a1b'' ''Added to cart'' no_options), Do (Error ''k3j9x0a1b'' ''Failed'' sticky),
          Advance 1000, Fire ''a'', Advance 2000, Fire ''b'', Advance 3000, Fire ''c'']
       (init_n 0)
     = Some \<lparr> notifications = [], queue = [], isProcessing = False,
              timers = [(3000, SweepTimer)], clock = 3000, resolved = [], promises = 0 \<rparr>"
  by (simp add: added_to_cart_def failed_note_def run_defs)

text \<open>
  Two queued notifications without the persistent flag take turns: when the timer
  of the queue shows the second one, the first one has been removed by its own
  timer 300 milliseconds before.
\<close>

lemma queued_in_turn:
  "(case run [ShowQueued ''k3j9x0a1b'' ''first'' ''info'' no_options,
              ShowQueued ''z81mm2q0c'' ''second'' ''info'' no_options,
              Advance 1000, Fire ''a'', Advance 2000, Fire ''b'', Advance 3000, Fire ''c'', Fire ''d'',
              Advance 3300, Fire ''e''] (init_n 0) of
      None \<Rightarrow> False
    | Some s \<Rightarrow>
        map message (notifications s) = [''second'']
        \<and> clock s = 3300
        \<and> resolved s = [(0, generateId 0 ''k3j9x0a1b'')])"
  by (simp add: run_defs)

text \<open>
  C6 fails for a queued notification that is persistent. \<open>showQueued\<close> is called
  twice in a row, the first time with \<open>{persistent: true}\<close>. After 3000 + 300
  milliseconds the timer of the queue resolves the first promise and shows the
  second notification, while the first one, which nothing removes, is still in
  the live collection: two queued notifications are displayed at once.
\<close>

theorem queued_persistent_overlap:
  "(case run [ShowQueued ''k3j9x0a1b'' ''first'' ''info'' sticky,
              ShowQueued ''z81mm2q0c'' ''second'' ''info'' no_options,
              Advance 1000, Fire ''a'', Advance 2000, Fire ''b'', Advance 3000, Fire ''c'',
              Advance 3300, Fire ''d''] (init_n 0) of
      None \<Rightarrow> False
    | Some s \<Rightarrow>
        map message (notifications s) = [''first'', ''second'']
        \<and> map persistent (notifications s) = [True, False]
        \<and> clock s = 3300
        \<and> resolved s = [(0, generateId 0 ''k3j9x0a1b'')])"
  by (simp add: run_defs)

section \<open>Properties of the storage accessors\<close>

lemma parseJSON_total: "parseJSON pf str fallback = Inr (case JSON_parse pf str of Inl e \<Rightarrow> fallback | Inr v \<Rightarrow> v)"
  by (simp add: parseJSON_def try_catch_def split: sum.splits)

lemma stringifyJSON_total: "stringifyJSON pf obj fb = Inr (case JSON_stringify pf obj of Inl e \<Rightarrow> fb | Inr v \<Rightarrow> v)"
  by (simp add: stringifyJSON_def try_catch_def split: sum.splits)

lemma storage_get_total: "\<exists>v. storage_get pf st key fallback = Inr v"
  by (simp add: storage_get_def try_catch_def then_do_def parseJSON_total split: sum.splits option.splits)

lemma storage_set_total: "\<exists>b st'. storage_set pf st key val = Inr (b, st')"
  by (auto simp add: storage_set_def try_catch_def then_do_def stringifyJSON_total split: sum.splits)

lemma storage_remove_total: "\<exists>b st'. storage_remove pf st key = Inr (b, st')"
  by (auto simp add: storage_remove_def try_catch_def then_do_def split: sum.splits)

lemma storage_get_read_failure:
  "getItem pf st key = Inl e \<Longrightarrow> storage_get pf st key fallback = Inr fallback"
  by (simp add: storage_get_def try_catch_def then_do_def)

lemma storage_get_malformed:
  "getItem pf st key = Inr (Some str) \<Longrightarrow> JSON_parse pf str = Inl e \<Longrightarrow> storage_get pf st key fallback = Inr fallback"
  by (simp add: storage_get_def try_catch_def then_do_def parseJSON_total)

lemma storage_set_write_failure:
  "stringifyJSON pf val ''{}'' = Inr str \<Longrightarrow> setItem pf st key str = Inl e \<Longrightarrow> storage_set pf st key val = Inr (False, st)"
  by (simp add: storage_set_def try_catch_def then_do_def)

lemma storage_remove_failure:
  "removeItem pf st key = Inl e \<Longrightarrow> storage_remove pf st key = Inr (False, st)"
  by (simp add: storage_remove_def try_catch_def then_do_def)

text \<open>
  C8: whatever the store and the JSON functions do, \<open>get\<close>, \<open>set\<close> and \<open>remove\<close>
  complete normally. A failing read gives the fallback, a failing write or removal
  gives \<open>false\<close> and leaves the store as it was, and a stored string that
  \<open>JSON.parse\<close> rejects gives the fallback that the caller supplied.
\<close>

theorem storage_accessors_never_throw:
  "(\<exists>v. storage_get pf st key fallback = Inr v)
   \<and> (\<exists>b st'. storage_set pf st key val = Inr (b, st'))
   \<and> (\<exists>b st'. storage_remove pf st key = Inr (b, st'))
   \<and> (getItem pf st1 key1 = Inl e1 \<longrightarrow> storage_get pf st1 key1 fallback = Inr fallback)
   \<and> (stringifyJSON pf val2 ''{}'' = Inr str2 \<and> setItem pf st2 key2 str2 = Inl e2
        \<longrightarrow> storage_set pf st2 key2 val2 = Inr (False, st2))
   \<and> (removeItem pf st3 key3 = Inl e3 \<longrightarrow> storage_remove pf st3 key3 = Inr (False, st3))
   \<and> (getItem pf st4 key4 = Inr (Some str4) \<and> JSON_parse pf str4 = Inl e4
        \<longrightarrow> storage_get pf st4 key4 fallback = Inr fallback)"
  using storage_get_total [of pf st key fallback] storage_set_total [of pf st key val]
    storage_remove_total [of pf st key]
    storage_get_read_failure [of pf st1 key1 e1 fallback]
    storage_set_write_failure [of pf val2 str2 st2 key2 e2]
    storage_remove_failure [of pf st3 key3 e3]
    storage_get_malformed [of pf st4 key4 str4 e4 fallback]
  by blast

theorem storage_accessors_never_throw_witness:
  "getItem demo_platform \<lparr>items = [], enabled = False, quota = 100\<rparr> ''authToken'' = Inl ''SecurityError''
   \<and> storage_get demo_platform \<lparr>items = [], enabled = False, quota = 100\<rparr> ''authToken'' ''none'' = Inr ''none''
   \<and> setItem demo_platform \<lparr>items = [], enabled = True, quota = 3\<rparr> ''recentSearches'' (CHR 0x22 # ''lamp'' @ [CHR 0x22])
        = Inl ''QuotaExceededError''
   \<and> storage_set demo_platform \<lparr>items = [], enabled = True, quota = 3\<rparr> ''recentSearches'' ''lamp''
        = Inr (False, \<lparr>items = [], enabled = True, quota = 3\<rparr>)
   \<and> removeItem demo_platform \<lparr>items = [], enabled = False, quota = 100\<rparr> ''authToken'' = Inl ''SecurityError''
   \<and> storage_remove demo_platform \<lparr>items = [], enabled = False, quota = 100\<rparr> ''authToken''
        = Inr (False, \<lparr>items = [], enabled = False, quota = 100\<rparr>)
   \<and> getItem demo_platform \<lparr>items = [(''savedSearches'', ''{oops'')], enabled = True, quota = 100\<rparr> ''savedSearches''
        = Inr (Some ''{oops'')
   \<and> JSON_parse demo_platform ''{oops'' = Inl ''SyntaxError''
   \<and> storage_get demo_platform \<lparr>items = [(''savedSearches'', ''{oops'')], enabled = True, quota = 100\<rparr> ''savedSearches'' ''none''
        = Inr ''none''"
  using storage_accessors_never_throw
    [where pf = demo_platform and fallback = "''none''"
       and ?st1.0 = "\<lparr>items = [], enabled = False, quota = 100\<rparr>" and ?key1.0 = "''authToken''"
       and ?e1.0 = "''SecurityError''"
       and ?val2.0 = "''lamp''" and ?str2.0 = "CHR 0x22 # ''lamp'' @ [CHR 0x22]"
       and ?st2.0 = "\<lparr>items = [], enabled = True, quota = 3\<rparr>" and ?key2.0 = "''recentSearches''"
       and ?e2.0 = "''QuotaExceededError''"
       and ?st3.0 = "\<lparr>items = [], enabled = False, quota = 100\<rparr>" and ?key3.0 = "''authToken''"
       and ?e3.0 = "''SecurityError''"
       and ?st4.0 = "\<lparr>items = [(''savedSearches'', ''{oops'')], enabled = True, quota = 100\<rparr>"
       and ?key4.0 = "''savedSearches''" and ?str4.0 = "''{oops''" and ?e4.0 = "''SyntaxError''"]
  by (simp add: demo_platform_def stringifyJSON_def try_catch_def)

section \<open>Properties of withRetry\<close>

declare retry_loop.simps [simp del]

lemma retry_loop_step:
  "i < maxRetries \<Longrightarrow> fn (nat i) = Inl err \<Longrightarrow> \<not> client_error err \<Longrightarrow>
     retry_loop fn maxRetries delay i lastError ws
       = retry_loop fn maxRetries delay (i + 1) (Some err)
           (if i < maxRetries - 1 then ws @ [delay * 2 ^ nat i] else ws)"
  by (simp add: retry_loop.simps [of fn maxRetries delay i])

lemma retry_loop_calls_ge:
  "0 \<le> i \<Longrightarrow> (if i < maxRetries then nat i + 1 else nat i) \<le> calls (retry_loop fn maxRetries delay i lastError ws)"
proof (induction fn maxRetries delay i lastError ws rule: retry_loop.induct)
  case (1 fn maxRetries delay i lastError ws)
  show ?case
  proof (cases "i < maxRetries")
    case False
    then show ?thesis by (simp add: retry_loop.simps [of fn maxRetries delay i])
  next
    case True
    note lt = True
    show ?thesis
    proof (cases "fn (nat i)")
      case (Inr v)
      with lt show ?thesis by (simp add: retry_loop.simps [of fn maxRetries delay i])
    next
      case (Inl err)
      show ?thesis
      proof (cases "client_error err")
        case True
        with lt Inl show ?thesis by (simp add: retry_loop.simps [of fn maxRetries delay i])
      next
        case False
        have "(if i + 1 < maxRetries then nat (i + 1) + 1 else nat (i + 1))
                \<le> calls (retry_loop fn maxRetries delay i lastError ws)"
          using "1.IH" [OF lt Inl False] "1.prems" lt Inl False
            retry_loop_step [of i maxRetries fn err delay lastError ws]
          by simp
        with lt "1.prems" show ?thesis by (simp split: if_splits add: nat_add_distrib)
      qed
    qed
  qed
qed

lemma retry_loop_waits:
  "0 \<le> i \<Longrightarrow>
     waits (retry_loop fn maxRetries delay i lastError ws)
       = ws @ map (\<lambda>k. delay * 2 ^ k) [nat i..<calls (retry_loop fn maxRetries delay i lastError ws) - 1]"
proof (induction fn maxRetries delay i lastError ws rule: retry_loop.induct)
  case (1 fn maxRetries delay i lastError ws)
  show ?case
  proof (cases "i < maxRetries")
    case False
    then show ?thesis by (simp add: retry_loop.simps [of fn maxRetries delay i])
  next
    case True
    note lt = True
    show ?thesis
    proof (cases "fn (nat i)")
      case (Inr v)
      with lt show ?thesis by (simp add: retry_loop.simps [of fn maxRetries delay i])
    next
      case (Inl err)
      show ?thesis
      proof (cases "client_error err")
        case True
        with lt Inl show ?thesis by (simp add: retry_loop.simps [of fn maxRetries delay i])
      next
        case False
        let ?ws' = "if i < maxRetries - 1 then ws @ [delay * 2 ^ nat i] else ws"
        let ?r = "retry_loop fn maxRetries delay (i + 1) (Some err) ?ws'"
        have eq: "retry_loop fn maxRetries delay i lastError ws = ?r"
          using lt Inl False by (rule retry_loop_step)
        have ih: "waits ?r = ?ws' @ map (\<lambda>k. delay * 2 ^ k) [nat (i + 1)..<calls ?r - 1]"
          using "1.IH" [OF lt Inl False] "1.prems" by simp
        have suc: "nat (i + 1) = Suc (nat i)"
          using "1.prems" by (simp add: nat_add_distrib)
        show ?thesis
        proof (cases "i < maxRetries - 1")
          case True
          then have "i + 1 < maxRetries" by simp
          with retry_loop_calls_ge [of "i + 1" maxRetries fn delay "Some err" ?ws'] "1.prems"
          have "nat (i + 1) + 1 \<le> calls ?r" by simp
          then have "nat i < calls ?r - 1" using suc by simp
          then have "[nat i..<calls ?r - 1] = nat i # [nat (i + 1)..<calls ?r - 1]"
            using suc by (simp add: upt_conv_Cons)
          with ih True show ?thesis unfolding eq by simp
        next
          case False
          with lt have m: "i + 1 = maxRetries" by simp
          then have "?r = \<lparr> outcome = Inl (Some err), calls = nat (i + 1), waits = ws \<rparr>"
            using False by (subst retry_loop.simps) simp
          then show ?thesis unfolding eq using suc by simp
        qed
      qed
    qed
  qed
qed

lemma retry_loop_no_retry_after_client_error:
  "0 \<le> i \<Longrightarrow> nat i \<le> k \<Longrightarrow> k + 1 < calls (retry_loop fn maxRetries delay i lastError ws) \<Longrightarrow>
     \<exists>e. fn k = Inl e \<and> \<not> client_error e"
proof (induction fn maxRetries delay i lastError ws rule: retry_loop.induct)
  case (1 fn maxRetries delay i lastError ws)
  show ?case
  proof (cases "i < maxRetries")
    case False
    with "1.prems" show ?thesis by (simp add: retry_loop.simps [of fn maxRetries delay i])
  next
    case True
    note lt = True
    show ?thesis
    proof (cases "fn (nat i)")
      case (Inr v)
      with lt "1.prems" show ?thesis by (simp add: retry_loop.simps [of fn maxRetries delay i])
    next
      case (Inl err)
      show ?thesis
      proof (cases "client_error err")
        case True
        with lt Inl "1.prems" show ?thesis by (simp add: retry_loop.simps [of fn maxRetries delay i])
      next
        case False
        note nc = False
        show ?thesis
        proof (cases "k = nat i")
          case True
          with Inl nc show ?thesis by simp
        next
          case False
          with "1.prems" have "nat (i + 1) \<le> k" by (simp add: nat_add_distrib)
          moreover have "0 \<le> i + 1" using "1.prems" by simp
          ultimately show ?thesis
            using "1.IH" [OF lt Inl nc] "1.prems"(3) lt Inl nc
              retry_loop_step [of i maxRetries fn err delay lastError ws]
            by simp
        qed
      qed
    qed
  qed
qed

lemma withRetry_client_error_first:
  "fn 0 = Inl e \<Longrightarrow> client_error e \<Longrightarrow> 1 \<le> maxRetries \<Longrightarrow>
     withRetry fn maxRetries delay = \<lparr> outcome = Inl (Some e), calls = 1, waits = [] \<rparr>"
  by (simp add: withRetry_def retry_loop.simps [of fn maxRetries delay 0])

lemma withRetry_two_failures_then_success:
  assumes "fn 0 = Inl e0" "\<not> client_error e0" "fn 1 = Inl e1" "\<not> client_error e1" "fn 2 = Inr v"
    and "3 \<le> maxRetries"
  shows "withRetry fn maxRetries delay = \<lparr> outcome = Inr v, calls = 3, waits = [delay, delay * 2] \<rparr>"
proof -
  have "withRetry fn maxRetries delay = retry_loop fn maxRetries delay 1 (Some e0) [delay]"
    unfolding withRetry_def using assms retry_loop_step [of 0 maxRetries fn e0 delay None "[]"] by simp
  also have "\<dots> = retry_loop fn maxRetries delay 2 (Some e1) [delay, delay * 2]"
    using assms retry_loop_step [of 1 maxRetries fn e1 delay "Some e0" "[delay]"] by simp
  also have "\<dots> = \<lparr> outcome = Inr v, calls = 3, waits = [delay, delay * 2] \<rparr>"
    using assms by (simp add: retry_loop.simps [of fn maxRetries delay 2] numeral_2_eq_2)
  finally show ?thesis .
qed

text \<open>
  C5, as the code has it. The wait after the attempt numbered \<open>k\<close> (from 0) is
  \<open>delay * 2^k\<close>; every attempt that was followed by another one had failed with an
  error that is no client error, so a failure with a status from 400 to 499 is
  never retried. Given an operation that always fails with status 404 and at least
  one attempt allowed, the operation is invoked once and its error is thrown
  again; given an operation that fails twice with status 503 and then succeeds, and
  at least three attempts allowed (three is the default), it is invoked three
  times, the waits are \<open>delay\<close> and \<open>2 * delay\<close>, and the success value is
  returned.
\<close>

theorem withRetry_backoff_and_client_errors:
  "waits (withRetry fn maxRetries delay)
     = map (\<lambda>k. delay * 2 ^ k) [0..<calls (withRetry fn maxRetries delay) - 1]
   \<and> (\<forall>k. k + 1 < calls (withRetry fn maxRetries delay) \<longrightarrow> (\<exists>e. fn k = Inl e \<and> \<not> client_error e))
   \<and> ((\<forall>k. fn1 k = Inl (err k) \<and> status (err k) = Some 404) \<and> 1 \<le> m1
        \<longrightarrow> withRetry fn1 m1 delay = \<lparr> outcome = Inl (Some (err 0)), calls = 1, waits = [] \<rparr>)
   \<and> (fn2 0 = Inl e0 \<and> status e0 = Some 503 \<and> fn2 1 = Inl e1 \<and> status e1 = Some 503
        \<and> fn2 2 = Inr v \<and> 3 \<le> m2
        \<longrightarrow> withRetry fn2 m2 delay = \<lparr> outcome = Inr v, calls = 3, waits = [delay, delay * 2] \<rparr>)"
proof -
  have a: "waits (withRetry fn maxRetries delay)
     = map (\<lambda>k. delay * 2 ^ k) [0..<calls (withRetry fn maxRetries delay) - 1]"
    unfolding withRetry_def using retry_loop_waits [of 0 fn maxRetries delay None "[]"] by simp
  have b: "\<forall>k. k + 1 < calls (withRetry fn maxRetries delay) \<longrightarrow> (\<exists>e. fn k = Inl e \<and> \<not> client_error e)"
    unfolding withRetry_def
    using retry_loop_no_retry_after_client_error [of 0 _ fn maxRetries delay None "[]"] by simp
  have c: "(\<forall>k. fn1 k = Inl (err k) \<and> status (err k) = Some 404) \<and> 1 \<le> m1
        \<longrightarrow> withRetry fn1 m1 delay = \<lparr> outcome = Inl (Some (err 0)), calls = 1, waits = [] \<rparr>"
  proof
    assume h: "(\<forall>k. fn1 k = Inl (err k) \<and> status (err k) = Some 404) \<and> 1 \<le> m1"
    then have "fn1 0 = Inl (err 0)" "client_error (err 0)" "1 \<le> m1"
      by (simp_all add: client_error_def)
    then show "withRetry fn1 m1 delay = \<lparr> outcome = Inl (Some (err 0)), calls = 1, waits = [] \<rparr>"
      by (rule withRetry_client_error_first)
  qed
  have d: "fn2 0 = Inl e0 \<and> status e0 = Some 503 \<and> fn2 1 = Inl e1 \<and> status e1 = Some 503
        \<and> fn2 2 = Inr v \<and> 3 \<le> m2
        \<longrightarrow> withRetry fn2 m2 delay = \<lparr> outcome = Inr v, calls = 3, waits = [delay, delay * 2] \<rparr>"
  proof
    assume h: "fn2 0 = Inl e0 \<and> status e0 = Some 503 \<and> fn2 1 = Inl e1 \<and> status e1 = Some 503
        \<and> fn2 2 = Inr v \<and> 3 \<le> m2"
    then have "\<not> client_error e0" "\<not> client_error e1"
      by (simp_all add: client_error_def)
    with h show "withRetry fn2 m2 delay = \<lparr> outcome = Inr v, calls = 3, waits = [delay, delay * 2] \<rparr>"
      using withRetry_two_failures_then_success [of fn2 e0 e1 v m2 delay] by simp
  qed
  from a b c d show ?thesis by blast
qed

theorem withRetry_backoff_and_client_errors_witness:
  "withRetry (\<lambda>k. Inl (HttpError ''Not Found'' 404 ''Not Found'' empty_json) :: js_error + string) 3 1000
     = \<lparr> outcome = Inl (Some (HttpError ''Not Found'' 404 ''Not Found'' empty_json)), calls = 1, waits = [] \<rparr>
   \<and> withRetry (\<lambda>k. if k < 2 then Inl (HttpError ''Busy'' 503 ''Service Unavailable'' empty_json) else Inr ''done'') 3 1000
     = \<lparr> outcome = Inr ''done'', calls = 3, waits = [1000, 2000] \<rparr>
   \<and> (0::nat) + 1 < calls (withRetry (\<lambda>k. if k < 2 then Inl (HttpError ''Busy'' 503 ''Service Unavailable'' empty_json) else Inr ''done'') 3 1000)
   \<and> \<not> client_error (HttpError ''Busy'' 503 ''Service Unavailable'' empty_json)"
proof -
  note t = withRetry_backoff_and_client_errors
    [where fn = "\<lambda>k. if k < 2 then Inl (HttpError ''Busy'' 503 ''Service Unavailable'' empty_json) else Inr ''done''"
       and maxRetries = 3 and delay = 1000
       and ?fn1.0 = "\<lambda>k. Inl (HttpError ''Not Found'' 404 ''Not Found'' empty_json) :: js_error + string"
       and err = "\<lambda>k. HttpError ''Not Found'' 404 ''Not Found'' empty_json" and ?m1.0 = 3
       and ?fn2.0 = "\<lambda>k. if k < 2 then Inl (HttpError ''Busy'' 503 ''Service Unavailable'' empty_json) else Inr ''done''"
       and ?e0.0 = "HttpError ''Busy'' 503 ''Service Unavailable'' empty_json"
       and ?e1.0 = "HttpError ''Busy'' 503 ''Service Unavailable'' empty_json"
       and v = "''done''" and ?m2.0 = 3]
  have r: "withRetry (\<lambda>k. if k < 2 then Inl (HttpError ''Busy'' 503 ''Service Unavailable'' empty_json) else Inr ''done'') 3 1000
     = \<lparr> outcome = Inr ''done'', calls = 3, waits = [1000, 2000] \<rparr>"
    using t by simp
  from t r show ?thesis by (simp add: client_error_def)
qed

text \<open>
  The claim as the specification words it fails where the bound of the loop ends
  the attempts before the scenario has played out: with no attempt allowed the
  operation is never invoked and \<open>undefined\<close> is thrown, and with two attempts
  allowed the operation that would succeed at the third one is invoked twice and
  its second error is thrown.
\<close>

theorem withRetry_bound_counterexample:
  "withRetry (\<lambda>k. Inl (HttpError ''Not Found'' 404 ''Not Found'' empty_json) :: js_error + string) 0 1000
     = \<lparr> outcome = Inl None, calls = 0, waits = [] \<rparr>
   \<and> withRetry (\<lambda>k. if k < 2 then Inl (HttpError ''Busy'' 503 ''Service Unavailable'' empty_json) else Inr ''done'') 2 1000
     = \<lparr> outcome = Inl (Some (HttpError ''Busy'' 503 ''Service Unavailable'' empty_json)), calls = 2,
         waits = [1000] \<rparr>"
proof -
  let ?f = "\<lambda>k::nat. if k < 2 then Inl (HttpError ''Busy'' 503 ''Service Unavailable'' empty_json) else Inr ''done''"
  let ?e = "HttpError ''Busy'' 503 ''Service Unavailable'' empty_json"
  have nc: "\<not> client_error ?e" by (simp add: client_error_def)
  have a: "withRetry (\<lambda>k. Inl (HttpError ''Not Found'' 404 ''Not Found'' empty_json) :: js_error + string) 0 1000
     = \<lparr> outcome = Inl None, calls = 0, waits = [] \<rparr>"
    by (simp add: withRetry_def retry_loop.simps [of _ 0 1000 0])
  have "withRetry ?f 2 1000 = retry_loop ?f 2 1000 1 (Some ?e) [1000]"
    unfolding withRetry_def using nc retry_loop_step [of 0 2 ?f ?e 1000 None "[]"] by simp
  also have "\<dots> = retry_loop ?f 2 1000 2 (Some ?e) [1000]"
    using nc retry_loop_step [of 1 2 ?f ?e 1000 "Some ?e" "[1000]"] by simp
  also have "\<dots> = \<lparr> outcome = Inl (Some ?e), calls = 2, waits = [1000] \<rparr>"
    by (simp add: retry_loop.simps [of ?f 2 1000 2])
  finally show ?thesis using a by simp
qed

section \<open>Properties of the API client\<close>

lemmas handler_defs = handleError_def handleUnauthorized_def handleForbidden_def handleRateLimit_def
  handleServerError_def setAuthToken_def Let_def

lemma handleError_isOnline: "isOnline (snd (handleError r s)) = isOnline s"
  by (simp add: handler_defs split: prod.splits sum.splits json.splits)

lemma handleError_requestQueue: "requestQueue (snd (handleError r s)) = requestQueue s"
  by (simp add: handler_defs split: prod.splits sum.splits json.splits)

lemma handleError_promise_count: "promise_count (snd (handleError r s)) = promise_count s"
  by (simp add: handler_defs split: prod.splits sum.splits json.splits)

lemma handleError_api_clock: "api_clock (snd (handleError r s)) = api_clock s"
  by (simp add: handler_defs split: prod.splits sum.splits json.splits)

lemma handleError_result:
  "fst (handleError r s) = Inr e \<Longrightarrow> status e = Some (r_status r)"
  by (auto simp add: handleError_def Let_def split: prod.splits sum.splits)

lemma handleError_returns:
  assumes "r_status r \<notin> {401, 403, 429, 500}
           \<or> \<not> Notifications_defined s \<and> \<not> (r_status r = 429 \<and> snd (error_body r) = JNull)"
  shows "\<exists>e. fst (handleError r s) = Inr e"
proof -
  obtain msg d where b: "error_body r = (msg, d)" by (cases "error_body r")
  show ?thesis
  proof (cases d)
    case JNull
    with assms b show ?thesis
      by (auto simp add: handler_defs notify_def)
  next
    case (JObject f)
    with assms b show ?thesis
      by (auto simp add: handler_defs notify_def)
  qed
qed

text \<open>
  A 429 response whose JSON body is \<open>null\<close> is rejected with a \<open>TypeError\<close> that
  carries no status, also on a page without the notifications script.
\<close>

lemma rate_limit_null_body:
  "fst (request_end ''/cart/items'' cart_post cart_post
          (Inr \<lparr> r_status = 429, r_statusText = ''Too Many Requests'', r_json_type = True,
                 r_json = Inr JNull, r_text = Inr ''null'' \<rparr>)
          (\<lambda>s. s) (init_api True False None 0))
     = Throws (TypeError ''Cannot read properties of null'')"
  by (simp add: request_end_def request_try_def request_catch_def ok_def handler_defs error_body_def
      init_api_def)

lemma request_try_not_ok:
  assumes "\<not> ok r"
  shows "\<exists>e. fst (request_try r s) = Inl e
           \<and> (r_status r \<notin> {401, 403, 429, 500}
                \<or> \<not> Notifications_defined s \<and> \<not> (r_status r = 429 \<and> snd (error_body r) = JNull)
                \<longrightarrow> status e = Some (r_status r))"
    and "snd (request_try r s) = snd (handleError r s)"
proof -
  obtain res s1 where h: "handleError r s = (res, s1)" by (cases "handleError r s")
  show "snd (request_try r s) = snd (handleError r s)"
    using assms h by (simp add: request_try_def split: sum.splits)
  show "\<exists>e. fst (request_try r s) = Inl e
           \<and> (r_status r \<notin> {401, 403, 429, 500}
                \<or> \<not> Notifications_defined s \<and> \<not> (r_status r = 429 \<and> snd (error_body r) = JNull)
                \<longrightarrow> status e = Some (r_status r))"
  proof (cases res)
    case (Inl e)
    with handleError_returns [of r s] h
    have "\<not> (r_status r \<notin> {401, 403, 429, 500}
              \<or> \<not> Notifications_defined s \<and> \<not> (r_status r = 429 \<and> snd (error_body r) = JNull))"
      by auto
    with Inl h assms show ?thesis by (auto simp add: request_try_def)
  next
    case (Inr err)
    with handleError_result [of r s err] h have "status err = Some (r_status r)" by simp
    with Inr h assms show ?thesis by (simp add: request_try_def)
  qed
qed

lemma http_error_online:
  assumes "400 \<le> r_status r \<and> r_status r \<le> 599"
    and "isOnline (mw s) \<or> queueOffline opts = Some False"
  shows "(\<exists>e. fst (request_end ep opts cfg (Inr r) mw s) = Throws e
            \<and> (r_status r \<notin> {401, 403, 429, 500}
                 \<or> \<not> Notifications_defined (mw s) \<and> \<not> (r_status r = 429 \<and> snd (error_body r) = JNull)
                 \<longrightarrow> status e = Some (r_status r)))
         \<and> requestQueue (snd (request_end ep opts cfg (Inr r) mw s)) = requestQueue (mw s)"
proof -
  from assms(1) have nok: "\<not> ok r" by (simp add: ok_def)
  obtain res s1 where t: "request_try r (mw s) = (res, s1)" by (cases "request_try r (mw s)")
  from request_try_not_ok [OF nok, of "mw s"] t
  obtain e where e: "res = Inl e"
    "r_status r \<notin> {401, 403, 429, 500}
       \<or> \<not> Notifications_defined (mw s) \<and> \<not> (r_status r = 429 \<and> snd (error_body r) = JNull)
       \<longrightarrow> status e = Some (r_status r)"
    and s1: "s1 = snd (handleError r (mw s))" by auto
  have "isOnline s1 = isOnline (mw s)" "requestQueue s1 = requestQueue (mw s)"
    by (simp_all add: s1 handleError_isOnline handleError_requestQueue)
  with assms(2) t e show ?thesis
    by (auto simp add: request_end_def request_catch_def)
qed

lemma http_error_offline:
  assumes "400 \<le> r_status r \<and> r_status r \<le> 599"
    and "\<not> isOnline (mw s) \<and> queueOffline opts \<noteq> Some False"
  shows "fst (request_end ep opts cfg (Inr r) mw s) = Follows (promise_count (mw s))
         \<and> requestQueue (snd (request_end ep opts cfg (Inr r) mw s))
             = requestQueue (mw s) @ [\<lparr> endpoint = ep, config = cfg, handle = promise_count (mw s),
                                          req_timestamp = api_clock (mw s) \<rparr>]"
proof -
  from assms(1) have nok: "\<not> ok r" by (simp add: ok_def)
  obtain res s1 where t: "request_try r (mw s) = (res, s1)" by (cases "request_try r (mw s)")
  from request_try_not_ok [OF nok, of "mw s"] t
  obtain e where e: "res = Inl e" and s1: "s1 = snd (handleError r (mw s))" by auto
  have "isOnline s1 = isOnline (mw s)" "requestQueue s1 = requestQueue (mw s)"
    "promise_count s1 = promise_count (mw s)" "api_clock s1 = api_clock (mw s)"
    by (simp_all add: s1 handleError_isOnline handleError_requestQueue handleError_promise_count handleError_api_clock)
  with assms(2) t e show ?thesis
    by (auto simp add: request_end_def request_catch_def queueRequest_def Let_def settle_def
        split: sum.splits option.splits)
qed

lemma queued_request_rejected_when_Notifications_defined:
  assumes "Notifications_defined s" and "promise_state s (promise_count s) = None"
    and "\<not> isOnline s \<and> queueOffline opts \<noteq> Some False"
  shows "(case request_end ep opts cfg (Inl e) mw s of
            (c, s') \<Rightarrow> completion_state c s' = Some (Rejected (TypeError ''Cannot read properties of undefined'')))"
  using assms
  by (simp add: request_end_def request_catch_def queueRequest_def notify_def settle_def
      promise_state_def completion_state_def Let_def map_add_def)

lemma queued_request_pending_without_Notifications:
  assumes "\<not> Notifications_defined s" and "promise_state s (promise_count s) = None"
    and "\<not> isOnline s \<and> queueOffline opts \<noteq> Some False"
  shows "(case request_end ep opts cfg (Inl e) mw s of
            (c, s') \<Rightarrow> completion_state c s' = None
              \<and> requestQueue s' = requestQueue s
                  @ [\<lparr> endpoint = ep, config = cfg, handle = promise_count s, req_timestamp = api_clock s \<rparr>])"
  using assms
  by (simp add: request_end_def request_catch_def queueRequest_def notify_def settle_def
      promise_state_def completion_state_def Let_def)

lemmas request_defs = request_def request_begin_def request_end_def request_try_def
  request_catch_def network_failure_def init_api_def queueRequest_def notify_def settle_def
  promise_state_def completion_state_def cart_post_def Let_def text_response_def ok_def
  handleError_def error_body_def getAuthHeaders_def bearer_def defaultHeaders_def

text \<open>
  C1 fails on a page that has loaded the notifications script. The client is
  offline, \<open>request('/cart/items', {method: 'POST'})\<close> is called and \<open>fetch\<close>
  rejects: the entry is appended to the buffer, but the promise that \<open>request\<close>
  hands to the caller is rejected on the spot with the \<open>TypeError\<close> of
  \<open>this.notifications.info(...)\<close>, where the claim has it pending until the drain.
\<close>

theorem request_offline_rejected_at_once:
  "(case request ''/cart/items'' cart_post network_failure (init_api False True None 0) of
      (c, s) \<Rightarrow> c = Follows 0
        \<and> completion_state c s = Some (Rejected (TypeError ''Cannot read properties of undefined''))
        \<and> map endpoint (requestQueue s) = [''/cart/items''])"
  by (simp add: request_defs)

text \<open>
  C2, as the code has it. \<open>fetch\<close> settles with a response whose status is 4xx or
  5xx while the client is in the state \<open>s\<close>; the body of the response is read, and
  the error reaches the \<open>catch\<close> block with the client in the state \<open>mw s\<close>,
  where \<open>mw\<close> is what other handlers did in the meantime. If the connectivity flag
  is true in that state, or the call has opted out with \<open>queueOffline: false\<close>,
  the promise is rejected at once and the buffer is left as it was; the error
  carries the status of the response when the handler of that status returns, as
  it does for every status without a handler and, on a page without the
  notifications script, for every response but a 429 whose body is \<open>null\<close>. If
  the flag is false in that state and the call has not opted out, the request is
  appended to the buffer and the caller is handed the promise of the new entry.
\<close>

theorem http_error_surfaced_unless_offline:
  assumes "400 \<le> r_status r \<and> r_status r \<le> 599"
  shows "(isOnline (mw1 s1) \<or> queueOffline opts1 = Some False \<longrightarrow>
            (\<exists>e. fst (request_end ep opts1 cfg (Inr r) mw1 s1) = Throws e
               \<and> (r_status r \<notin> {401, 403, 429, 500}
                    \<or> \<not> Notifications_defined (mw1 s1)
                        \<and> \<not> (r_status r = 429 \<and> snd (error_body r) = JNull)
                    \<longrightarrow> status e = Some (r_status r)))
            \<and> requestQueue (snd (request_end ep opts1 cfg (Inr r) mw1 s1)) = requestQueue (mw1 s1))
       \<and> (\<not> isOnline (mw2 s2) \<and> queueOffline opts2 \<noteq> Some False \<longrightarrow>
            fst (request_end ep opts2 cfg (Inr r) mw2 s2) = Follows (promise_count (mw2 s2))
            \<and> requestQueue (snd (request_end ep opts2 cfg (Inr r) mw2 s2))
                = requestQueue (mw2 s2)
                    @ [\<lparr> endpoint = ep, config = cfg, handle = promise_count (mw2 s2),
                         req_timestamp = api_clock (mw2 s2) \<rparr>])"
  using http_error_online [OF assms, of mw1 s1 opts1 ep cfg]
    http_error_offline [OF assms, of mw2 s2 opts2 ep cfg]
  by blast

theorem http_error_surfaced_unless_offline_witness:
  "400 \<le> r_status (text_response 404 ''Not Found'' ''no such cart'')
   \<and> r_status (text_response 404 ''Not Found'' ''no such cart'') \<le> 599
   \<and> isOnline (init_api True True None 0)
   \<and> r_status (text_response 404 ''Not Found'' ''no such cart'') \<notin> {401, 403, 429, 500}
   \<and> (\<exists>e. fst (request_end ''/cart/items'' cart_post cart_post
              (Inr (text_response 404 ''Not Found'' ''no such cart'')) (\<lambda>s. s)
              (init_api True True None 0)) = Throws e
          \<and> status e = Some 404)
   \<and> requestQueue (snd (request_end ''/cart/items'' cart_post cart_post
              (Inr (text_response 404 ''Not Found'' ''no such cart'')) (\<lambda>s. s)
              (init_api True True None 0))) = []
   \<and> \<not> isOnline (offline_event (init_api True True None 0)) \<and> queueOffline cart_post \<noteq> Some False
   \<and> fst (request_end ''/cart/items'' cart_post cart_post
              (Inr (text_response 404 ''Not Found'' ''no such cart'')) offline_event
              (init_api True True None 0)) = Follows 0
   \<and> map endpoint (requestQueue (snd (request_end ''/cart/items'' cart_post cart_post
              (Inr (text_response 404 ''Not Found'' ''no such cart'')) offline_event
              (init_api True True None 0))))
        = [''/cart/items'']"
  using http_error_surfaced_unless_offline
    [of "text_response 404 ''Not Found'' ''no such cart''" "\<lambda>s. s" "init_api True True None 0" cart_post
        "''/cart/items''" cart_post offline_event "init_api True True None 0" cart_post]
  by (simp add: text_response_def init_api_def cart_post_def offline_event_def)

text \<open>
  The claim as the specification words it fails while the client is offline: the
  error of a 404 response is caught by the same \<open>catch\<close> block as a network
  failure, the request goes into the buffer and the caller's promise stays
  pending.
\<close>

theorem http_error_queued_counterexample:
  "(case request ''/cart/items'' cart_post (Inr (text_response 404 ''Not Found'' ''no such cart''))
           (init_api False False None 0) of
      (c, s) \<Rightarrow> c = Follows 0 \<and> completion_state c s = None
        \<and> map endpoint (requestQueue s) = [''/cart/items''])"
  by (simp add: request_defs)

text \<open>
  On a page without the notifications script the drain does settle the promise of
  a queued entry with the outcome of its replay.
\<close>

lemma drain_settles_without_Notifications:
  "(case request ''/cart/items'' cart_post network_failure (init_api False False None 0) of
      (c, s) \<Rightarrow>
        (case online_event (quiet_replay (text_response 200 ''OK'' ''added'')) (s\<lparr>api_clock := 1000\<rparr>) of
           Finished s' \<Rightarrow>
             map fst (fetched s') = [''/api/cart/items'', ''/api/cart/items'']
             \<and> requestQueue s' = []
             \<and> completion_state c s' = Some (Resolved (TextBody ''added''))
         | Parked h item rest s' \<Rightarrow> False))"
  by (simp add: request_defs online_event_def processQueue_def quiet_replay_def)

lemma drain_rejects_stale_without_fetch:
  assumes "\<not> api_clock s - req_timestamp item < 5 * 60 * 1000"
  shows "drain env k [item] s = Finished (settle (handle item) (Rejected (PlainError ''Request expired'')) s)"
    and "fetched (settle (handle item) (Rejected (PlainError ''Request expired'')) s) = fetched s"
  using assms by (simp_all add: settle_def split: option.splits)

text \<open>
  C3 fails on a page that has loaded the notifications script. A request is
  queued while the client is offline; one second later the \<open>online\<close> event drains
  the buffer and the replay is answered with status 200. The entry is replayed
  once and leaves the buffer, but its promise keeps the rejection it received when
  it was queued: \<open>item.resolve(result)\<close> comes too late, and so would
  \<open>item.reject\<close> for a stale entry.
\<close>

theorem drain_cannot_settle_queued_promise:
  "(case request ''/cart/items'' cart_post network_failure (init_api False True None 0) of
      (c, s) \<Rightarrow>
        (case online_event (quiet_replay (text_response 200 ''OK'' ''added'')) (s\<lparr>api_clock := 1000\<rparr>) of
           Finished s' \<Rightarrow>
             map fst (fetched s') = [''/api/cart/items'', ''/api/cart/items'']
             \<and> requestQueue s' = []
             \<and> promise_state s' 0 = Some (Rejected (TypeError ''Cannot read properties of undefined''))
         | Parked h item rest s' \<Rightarrow> False))"
  by (simp add: request_defs online_event_def processQueue_def quiet_replay_def)

end
